theory Spec2Isabelle
  imports Main
begin

section \<open>Values shared by the three stages\<close>

text \<open>
  The embedding follows \<^verbatim>\<open>drudid/dataset.py\<close>: the commands \<^verbatim>\<open>pull\<close>,
  \<^verbatim>\<open>merge\<close> and \<^verbatim>\<open>convert\<close> become functions on explicit state. What a
  command raises, logs, writes and mutates is part of the value it returns. The
  libraries the commands call (orjson, pandas, httpx, the Fetcher class of
  \<^verbatim>\<open>drudid/fetcher.py\<close>) are not part of the modelled file: where their result
  is fixed by their documentation it is written out, where it is not it is a
  parameter of the model and every theorem holds for each value of it.
\<close>

type_synonym bytes = string
type_synonym path = string

text \<open>The Python exceptions the modelled calls raise; all derive from \<^verbatim>\<open>Exception\<close>.\<close>

datatype py_error =
    FileNotFoundError | FileExistsError | OSError | JSONDecodeError
  | TypeError | KeyError | ValueError | AttributeError | ImportError
  | EmptyDataError

text \<open>A call either returns, or raises and leaves the state it had reached.\<close>

datatype 'a outcome = Returned 'a | Raised py_error 'a

fun final :: "'a outcome \<Rightarrow> 'a" where
  "final (Returned s) = s"
| "final (Raised e s) = s"

fun raised :: "'a outcome \<Rightarrow> py_error option" where
  "raised (Returned s) = None"
| "raised (Raised e s) = Some e"

text \<open>
  A decoded JSON document, as \<^verbatim>\<open>orjson.loads\<close> and \<^verbatim>\<open>Response.json()\<close> return
  it: \<^verbatim>\<open>None\<close>, a bool, a number, a str, a list or a dict (in key order). Numbers
  are the integers; of a number the commands use the truth value only.
\<close>

datatype json =
    JNull | JBool bool | JInt int | JStr string
  | JArr "json list" | JObj "(string \<times> json) list"

text \<open>The truth value Python gives a decoded document (\<^verbatim>\<open>if items:\<close>).\<close>

fun truthy :: "json \<Rightarrow> bool" where
  "truthy JNull = False"
| "truthy (JBool b) = b"
| "truthy (JInt n) = (n \<noteq> 0)"
| "truthy (JStr s) = (s \<noteq> [])"
| "truthy (JArr xs) = (xs \<noteq> [])"
| "truthy (JObj kvs) = (kvs \<noteq> [])"

fun is_JObj :: "json \<Rightarrow> bool" where
  "is_JObj (JObj kvs) = True"
| "is_JObj v = False"

fun dict_items :: "json \<Rightarrow> (string \<times> json) list" where
  "dict_items (JObj kvs) = kvs"
| "dict_items v = []"

text \<open>The log: loguru's level and the message, kept structured.\<close>

datatype level = DEBUG | INFO | SUCCESS | WARNING | ERROR

datatype message =
    RetrievingData | EndPageNotGreater | TotalPages int | SkippingPage int
  | PageSaved int path
  | MergingDataset int | FoundFiles nat | NoFilesToMerge
  | UnexpectedJSON path | ErrorProcessing path py_error
  | CreatedOutput nat | AppendedRows nat nat | MergedSaved nat
  | ConvertingToParquet | LoadedRows nat | ConvertingColumns
  | ColumnIssue string py_error | ConvertedToParquet | ParquetError py_error
  | ConvertedWithFallback | ConversionFailed py_error

type_synonym log = "(level \<times> message) list"

text \<open>
  What is at the path of a data directory, and \<^verbatim>\<open>mkdir(parents=True, exist_ok=True)\<close>
  on it: it raises \<^verbatim>\<open>FileExistsError\<close> when the path is taken by something that
  is not a directory.
\<close>

datatype dir_state = Absent | Directory | NotADirectory

fun mkdir :: "dir_state \<Rightarrow> py_error + dir_state" where
  "mkdir Absent = Inr Directory"
| "mkdir Directory = Inr Directory"
| "mkdir NotADirectory = Inl FileExistsError"

text \<open>
  \<^verbatim>\<open>range(start, stop, step)\<close>: a zero step raises \<^verbatim>\<open>ValueError\<close>, a negative
  step counts down.
\<close>

definition py_range :: "int \<Rightarrow> int \<Rightarrow> int \<Rightarrow> py_error + int list" where
  "py_range start stop step =
     (if step = 0 then Inl ValueError
      else if 0 < step then
        Inr (map (\<lambda>k. start + int k * step) [0..<nat ((stop - start + step - 1) div step)])
      else
        Inr (map (\<lambda>k. start + int k * step) [0..<nat ((start - stop - step - 1) div (- step))]))"

text \<open>\<^verbatim>\<open>xs[a:b]\<close>: a negative bound counts from the end, both are clipped.\<close>

definition clip :: "nat \<Rightarrow> int \<Rightarrow> nat" where
  "clip n i = (if i < 0 then nat (int n + i) else min (nat i) n)"

definition py_slice :: "'a list \<Rightarrow> int \<Rightarrow> int \<Rightarrow> 'a list" where
  "py_slice xs a b = take (clip (length xs) b - clip (length xs) a) (drop (clip (length xs) a) xs)"

section \<open>The merge stage\<close>

subsection \<open>Tables\<close>

text \<open>
  A pandas \<^verbatim>\<open>DataFrame\<close> built from records: the column names in order and, per
  row, the record it came from. The cell of a row under a column is the record's
  value for that name, and \<^verbatim>\<open>NaN\<close> (here \<open>None\<close>) where the record has none.
\<close>

record frame =
  columns :: "string list"
  rows :: "(string \<times> json) list list"

definition cells :: "string list \<Rightarrow> (string \<times> json) list \<Rightarrow> json option list" where
  "cells cols r = map (map_of r) cols"

text \<open>Names in the order they are first seen, each once.\<close>

fun first_seen :: "'a list \<Rightarrow> 'a list" where
  "first_seen [] = []"
| "first_seen (x # xs) = x # filter (\<lambda>y. y \<noteq> x) (first_seen xs)"

text \<open>
  \<^verbatim>\<open>pd.DataFrame(items)\<close>. For a non-empty list of dicts pandas makes one row per
  dict under the union of their keys. A list that begins with a dict is read as a
  list of dicts, and an element that is none raises \<^verbatim>\<open>AttributeError\<close> (it has
  no \<^verbatim>\<open>keys\<close>). What pandas does with any other document (a frame for some, an
  exception for others) is the parameter \<open>other\<close>.
\<close>

definition is_records :: "json \<Rightarrow> bool" where
  "is_records v = (case v of JArr rs \<Rightarrow> rs \<noteq> [] \<and> list_all is_JObj rs | _ \<Rightarrow> False)"

fun mixed_records :: "json \<Rightarrow> bool" where
  "mixed_records (JArr (r # rs)) = (is_JObj r \<and> \<not> list_all is_JObj rs)"
| "mixed_records v = False"

fun elements :: "json \<Rightarrow> json list" where
  "elements (JArr rs) = rs"
| "elements v = []"

definition DataFrame :: "(json \<Rightarrow> py_error + frame) \<Rightarrow> json \<Rightarrow> py_error + frame" where
  "DataFrame other items =
     (if is_records items then
        Inr \<lparr>columns = first_seen (concat (map (map fst \<circ> dict_items) (elements items))),
             rows = map dict_items (elements items)\<rparr>
      else if mixed_records items then Inl AttributeError
      else other items)"

text \<open>\<^verbatim>\<open>pd.concat(frames, ignore_index=True)\<close>: the rows in order under the union of the columns.\<close>

definition pd_concat :: "frame list \<Rightarrow> frame" where
  "pd_concat dfs =
     \<lparr>columns = first_seen (concat (map columns dfs)), rows = concat (map rows dfs)\<rparr>"

text \<open>
  The interim table \<^verbatim>\<open>merged.csv\<close> as the lines \<^verbatim>\<open>to_csv\<close> writes: a header
  line of column names, or a data line with one field per column of the frame
  written, the empty field (\<open>None\<close>) for \<^verbatim>\<open>NaN\<close>.
\<close>

datatype csv_line = Header "string list" | Data "json option list"

definition to_csv :: "frame \<Rightarrow> bool \<Rightarrow> csv_line list" where
  "to_csv df header =
     (if header then [Header (columns df)] else []) @ map (\<lambda>r. Data (cells (columns df) r)) (rows df)"

subsection \<open>Reading one page file\<close>

text \<open>
  \<^verbatim>\<open>"list" in items\<close> is key membership on a dict, element membership on a list,
  a substring test on a str, and \<^verbatim>\<open>TypeError\<close> on anything else.
  \<^verbatim>\<open>items["list"]\<close> is defined on dicts only.
\<close>

fun is_substring :: "string \<Rightarrow> string \<Rightarrow> bool" where
  "is_substring p [] = (p = [])"
| "is_substring p (c # cs) = (take (length p) (c # cs) = p \<or> is_substring p cs)"

fun contains_list :: "json \<Rightarrow> py_error + bool" where
  "contains_list (JObj kvs) = Inr (''list'' \<in> set (map fst kvs))"
| "contains_list (JArr xs) = Inr (JStr ''list'' \<in> set xs)"
| "contains_list (JStr s) = Inr (is_substring ''list'' s)"
| "contains_list v = Inl TypeError"

fun getitem_list :: "json \<Rightarrow> py_error + json" where
  "getitem_list (JObj kvs) = (case map_of kvs ''list'' of Some v \<Rightarrow> Inr v | None \<Rightarrow> Inl KeyError)"
| "getitem_list v = Inl TypeError"

text \<open>
  What \<^verbatim>\<open>merge\<close> is run against: the files of the raw directory by path,
  \<^verbatim>\<open>orjson.loads\<close>, pandas on the documents left to it, and what is at the path
  of the interim directory, which \<^verbatim>\<open>merge\<close> does not make.
\<close>

record env =
  raw_files :: "path \<Rightarrow> bytes option"
  loads :: "bytes \<Rightarrow> py_error + json"
  frame_of_other :: "json \<Rightarrow> py_error + frame"
  interim :: dir_state

text \<open>
  The body of the \<^verbatim>\<open>try\<close> for one file, with its \<^verbatim>\<open>except Exception\<close>: the
  frame appended to \<^verbatim>\<open>chunk_dataframes\<close> (if any) and the lines logged.
\<close>

definition process_file :: "env \<Rightarrow> path \<Rightarrow> frame option \<times> log" where
  "process_file E file =
     (case raw_files E file of
        None \<Rightarrow> (None, [(ERROR, ErrorProcessing file FileNotFoundError)])
      | Some b \<Rightarrow>
         (case loads E b of
            Inl e \<Rightarrow> (None, [(ERROR, ErrorProcessing file e)])
          | Inr items \<Rightarrow>
             (case contains_list items of
                Inl e \<Rightarrow> (None, [(ERROR, ErrorProcessing file e)])
              | Inr False \<Rightarrow> (None, [(WARNING, UnexpectedJSON file)])
              | Inr True \<Rightarrow>
                 (case getitem_list items of
                    Inl e \<Rightarrow> (None, [(ERROR, ErrorProcessing file e)])
                  | Inr its \<Rightarrow>
                     if truthy its then
                       (case DataFrame (frame_of_other E) its of
                          Inl e \<Rightarrow> (None, [(ERROR, ErrorProcessing file e)])
                        | Inr df \<Rightarrow> (Some df, []))
                     else (None, [])))))"

text \<open>The inner loop \<^verbatim>\<open>for file in chunk_files\<close>, on \<^verbatim>\<open>chunk_dataframes\<close> and the log.\<close>

fun read_chunk :: "env \<Rightarrow> path list \<Rightarrow> frame list \<times> log \<Rightarrow> frame list \<times> log" where
  "read_chunk E [] acc = acc"
| "read_chunk E (file # files) (dfs, lg) =
     (case process_file E file of
        (None, l) \<Rightarrow> read_chunk E files (dfs, lg @ l)
      | (Some df, l) \<Rightarrow> read_chunk E files (dfs @ [df], lg @ l))"

subsection \<open>The command\<close>

text \<open>
  The state of a run: the locals \<^verbatim>\<open>first_chunk\<close> and \<^verbatim>\<open>total_rows\<close>, the
  content of \<^verbatim>\<open>merged.csv\<close> (\<open>None\<close> while the file does not exist), the
  \<^verbatim>\<open>to_csv\<close> calls that returned (the frame and the \<^verbatim>\<open>header\<close> argument), and
  the log.
\<close>

record merge_state =
  first_chunk :: bool
  total_rows :: nat
  output_file :: "csv_line list option"
  csv_calls :: "(frame \<times> bool) list"
  log_of :: log

definition existing :: "csv_line list option \<Rightarrow> csv_line list" where
  "existing f = (case f of None \<Rightarrow> [] | Some ls \<Rightarrow> ls)"

text \<open>
  One turn of the outer loop, for the slice \<^verbatim>\<open>chunk_files\<close>. \<^verbatim>\<open>to_csv\<close> opens
  \<^verbatim>\<open>merged.csv\<close> in the interim directory and raises \<^verbatim>\<open>OSError\<close> when there
  is no such directory; it is called after \<^verbatim>\<open>total_rows\<close> is raised and outside
  every \<^verbatim>\<open>try\<close>, so its exception leaves the command.
\<close>

definition merge_chunk :: "env \<Rightarrow> path list \<Rightarrow> merge_state \<Rightarrow> merge_state outcome" where
  "merge_chunk E chunk_files st =
     (case read_chunk E chunk_files ([], log_of st) of
        (chunk_dataframes, lg) \<Rightarrow>
          if chunk_dataframes \<noteq> [] then
            (let chunk_df = pd_concat chunk_dataframes;
                 total = total_rows st + length (rows chunk_df);
                 st1 = st\<lparr>total_rows := total, log_of := lg\<rparr>
             in if interim E \<noteq> Directory then Raised OSError st1
                else if first_chunk st then
                  Returned (st1\<lparr>first_chunk := False,
                     output_file := Some (to_csv chunk_df True),
                     csv_calls := csv_calls st @ [(chunk_df, True)],
                     log_of := lg @ [(INFO, CreatedOutput (length (rows chunk_df)))]\<rparr>)
                else
                  Returned (st1\<lparr>output_file := Some (existing (output_file st) @ to_csv chunk_df False),
                     csv_calls := csv_calls st @ [(chunk_df, False)],
                     log_of := lg @ [(INFO, AppendedRows (length (rows chunk_df)) total)]\<rparr>))
          else Returned (st\<lparr>log_of := lg\<rparr>))"

text \<open>The outer loop, over the slices in order; an exception ends it.\<close>

fun merge_chunks :: "env \<Rightarrow> path list list \<Rightarrow> merge_state \<Rightarrow> merge_state outcome" where
  "merge_chunks E [] st = Returned st"
| "merge_chunks E (chunk_files # rest) st =
     (case merge_chunk E chunk_files st of
        Returned st' \<Rightarrow> merge_chunks E rest st'
      | Raised e st' \<Rightarrow> Raised e st')"

text \<open>
  \<^verbatim>\<open>merge(chunk_size)\<close>. \<open>files\<close> is what \<^verbatim>\<open>glob.glob\<close> returned for
  \<^verbatim>\<open>*.json\<close> in the raw directory, in the order it returned it; \<open>out\<close> is
  \<^verbatim>\<open>merged.csv\<close> as the run finds it.
\<close>

definition chunk_of :: "path list \<Rightarrow> int \<Rightarrow> int \<Rightarrow> path list" where
  "chunk_of files chunk_size chunk_start = py_slice files chunk_start (chunk_start + chunk_size)"

definition merge :: "env \<Rightarrow> path list \<Rightarrow> csv_line list option \<Rightarrow> int \<Rightarrow> merge_state outcome" where
  "merge E files out chunk_size =
     (let st0 = \<lparr>first_chunk = True, total_rows = 0, output_file = out, csv_calls = [],
                 log_of = [(INFO, MergingDataset chunk_size), (INFO, FoundFiles (length files))]\<rparr>
      in if files = [] then Returned (st0\<lparr>log_of := log_of st0 @ [(WARNING, NoFilesToMerge)]\<rparr>)
         else
           (case py_range 0 (int (length files)) chunk_size of
              Inl e \<Rightarrow> Raised e st0
            | Inr starts \<Rightarrow>
               (case merge_chunks E (map (chunk_of files chunk_size) starts) st0 of
                  Returned st \<Rightarrow>
                    Returned (st\<lparr>log_of := log_of st @ [(SUCCESS, MergedSaved (total_rows st))]\<rparr>)
                | Raised e st \<Rightarrow> Raised e st)))"

subsection \<open>Notions the statements use\<close>

text \<open>
  The frames one batch leaves in \<^verbatim>\<open>chunk_dataframes\<close>, and the batches a run
  forms: the slices \<^verbatim>\<open>files[chunk_start : chunk_start + chunk_size]\<close> over the
  range of the outer loop (none when \<^verbatim>\<open>range\<close> raises).
\<close>

definition chunk_frames :: "env \<Rightarrow> path list \<Rightarrow> frame list" where
  "chunk_frames E chunk_files = fst (read_chunk E chunk_files ([], []))"

definition batches :: "path list \<Rightarrow> int \<Rightarrow> path list list" where
  "batches files chunk_size =
     (case py_range 0 (int (length files)) chunk_size of
        Inl e \<Rightarrow> []
      | Inr starts \<Rightarrow> map (chunk_of files chunk_size) starts)"

text \<open>
  The words of the row-count property. A page file is successfully parsed when it
  can be read and \<^verbatim>\<open>orjson.loads\<close> returns; its list field is the value under
  the key \<^verbatim>\<open>list\<close> of a decoded dict; the field's length is the length of that
  list, and zero for a value that is no list. A list field holds records when it
  is a list of dicts, and it holds nothing when it is \<^verbatim>\<open>null\<close> or another
  false value.
\<close>

fun record_list :: "json \<Rightarrow> bool" where
  "record_list (JArr rs) = list_all is_JObj rs"
| "record_list v = False"

definition parsed :: "env \<Rightarrow> path \<Rightarrow> json option" where
  "parsed E file =
     (case raw_files E file of
        None \<Rightarrow> None
      | Some b \<Rightarrow> (case loads E b of Inl e \<Rightarrow> None | Inr v \<Rightarrow> Some v))"

definition list_field :: "env \<Rightarrow> path \<Rightarrow> json option" where
  "list_field E file =
     (case parsed E file of
        Some (JObj kvs) \<Rightarrow> map_of kvs ''list''
      | _ \<Rightarrow> None)"

definition list_length :: "env \<Rightarrow> path \<Rightarrow> nat" where
  "list_length E file = (case list_field E file of Some (JArr rs) \<Rightarrow> length rs | _ \<Rightarrow> 0)"

definition lists_hold_records :: "env \<Rightarrow> path \<Rightarrow> bool" where
  "lists_hold_records E file =
     (case list_field E file of None \<Rightarrow> True | Some v \<Rightarrow> record_list v \<or> \<not> truthy v)"

text \<open>
  The rows a list field is due, by its shape: its length when it is a list of
  records; none when it is a list that begins with a record and holds something
  else too, or when it is empty, \<^verbatim>\<open>null\<close> or another false value; and for any
  other shape the rows of the frame pandas builds from it, none if pandas raises.
  A file without list field is due no row.
\<close>

definition rows_due :: "(json \<Rightarrow> py_error + frame) \<Rightarrow> json \<Rightarrow> nat" where
  "rows_due other v =
     (if record_list v then length (elements v)
      else if mixed_records v \<or> \<not> truthy v then 0
      else (case other v of Inl e \<Rightarrow> 0 | Inr df \<Rightarrow> length (rows df)))"

definition expected_rows :: "env \<Rightarrow> path \<Rightarrow> nat" where
  "expected_rows E file =
     (case list_field E file of None \<Rightarrow> 0 | Some v \<Rightarrow> rows_due (frame_of_other E) v)"

text \<open>
  The rows one file adds to its batch, the rows the \<^verbatim>\<open>to_csv\<close> calls of a run
  wrote, and the state a run starts its loop in.
\<close>

definition file_rows :: "env \<Rightarrow> path \<Rightarrow> nat" where
  "file_rows E file = (case fst (process_file E file) of None \<Rightarrow> 0 | Some df \<Rightarrow> length (rows df))"

definition rows_written :: "merge_state \<Rightarrow> nat" where
  "rows_written st = sum_list (map (\<lambda>c. length (rows (fst c))) (csv_calls st))"

definition start_state :: "path list \<Rightarrow> csv_line list option \<Rightarrow> int \<Rightarrow> merge_state" where
  "start_state files out cs =
     \<lparr>first_chunk = True, total_rows = 0, output_file = out, csv_calls = [],
      log_of = [(INFO, MergingDataset cs), (INFO, FoundFiles (length files))]\<rparr>"

text \<open>
  The batches of a run that end with a non-empty \<^verbatim>\<open>chunk_dataframes\<close>, in order,
  and the frame \<^verbatim>\<open>chunk_df\<close> such a batch writes.
\<close>

fun is_Data :: "csv_line \<Rightarrow> bool" where
  "is_Data (Data cs) = True"
| "is_Data (Header cs) = False"

definition nonempty_batches :: "env \<Rightarrow> path list \<Rightarrow> int \<Rightarrow> path list list" where
  "nonempty_batches E files chunk_size = filter (\<lambda>b. chunk_frames E b \<noteq> []) (batches files chunk_size)"

definition batch_frame :: "env \<Rightarrow> path list \<Rightarrow> frame" where
  "batch_frame E b = pd_concat (chunk_frames E b)"

text \<open>
  The data lines of the interim table, and the invariant of the loop that ties
  them to \<^verbatim>\<open>total_rows\<close>.
\<close>

definition data_lines :: "merge_state \<Rightarrow> nat" where
  "data_lines st = length (filter is_Data (existing (output_file st)))"

definition counted :: "merge_state \<Rightarrow> bool" where
  "counted st = (if first_chunk st then total_rows st = 0 \<and> csv_calls st = []
                 else data_lines st = total_rows st)"

text \<open>
  A raw directory to run the stage on: the two page files of the scenario of the
  specification, a page without the \<^verbatim>\<open>list\<close> key, one that is not JSON, one
  with an empty list and one whose list holds a record and a number.
  \<open>scenario_loads\<close> is \<^verbatim>\<open>orjson.loads\<close> on these contents. The interim directory
  is there in \<open>scenario\<close> and missing in \<open>no_interim\<close>.
\<close>

definition scenario_loads :: "bytes \<Rightarrow> py_error + json" where
  \<open>scenario_loads b =
     (if b = ''{"list":[{"id":"1"},{"id":"2"}]}'' then
        Inr (JObj [(''list'', JArr [JObj [(''id'', JStr ''1'')], JObj [(''id'', JStr ''2'')]])])
      else if b = ''{"list":[{"id":"3","title":"x"}]}'' then
        Inr (JObj [(''list'', JArr [JObj [(''id'', JStr ''3''), (''title'', JStr ''x'')]])])
      else if b = ''{"total":0}'' then Inr (JObj [(''total'', JInt 0)])
      else if b = ''{"list":[]}'' then Inr (JObj [(''list'', JArr [])])
      else if b = ''{"list":[{"a":1},5]}'' then
        Inr (JObj [(''list'', JArr [JObj [(''a'', JInt 1)], JInt 5])])
      else Inl JSONDecodeError)\<close>

definition scenario :: env where
  \<open>scenario =
     \<lparr>raw_files = [''page_0.json'' \<mapsto> ''{"list":[{"id":"1"},{"id":"2"}]}'',
                   ''page_1.json'' \<mapsto> ''{"list":[{"id":"3","title":"x"}]}'',
                   ''page_2.json'' \<mapsto> ''{"total":0}'',
                   ''page_3.json'' \<mapsto> ''<html>'',
                   ''page_4.json'' \<mapsto> ''{"list":[]}'',
                   ''page_5.json'' \<mapsto> ''{"list":[{"a":1},5]}''],
      loads = scenario_loads,
      frame_of_other = (\<lambda>v. Inl ValueError),
      interim = Directory\<rparr>\<close>

definition no_interim :: env where
  "no_interim = scenario\<lparr>interim := Absent\<rparr>"

text \<open>For the proofs: the state after a turn of the loop whose write succeeds.\<close>

definition wrote_chunk :: "env \<Rightarrow> path list \<Rightarrow> merge_state \<Rightarrow> merge_state" where
  "wrote_chunk E chunk_files st =
     (case read_chunk E chunk_files ([], log_of st) of
        (chunk_dataframes, lg) \<Rightarrow>
          if chunk_dataframes \<noteq> [] then
            (let chunk_df = pd_concat chunk_dataframes;
                 total = total_rows st + length (rows chunk_df)
             in if first_chunk st then
                  st\<lparr>first_chunk := False, total_rows := total,
                     output_file := Some (to_csv chunk_df True),
                     csv_calls := csv_calls st @ [(chunk_df, True)],
                     log_of := lg @ [(INFO, CreatedOutput (length (rows chunk_df)))]\<rparr>
                else
                  st\<lparr>total_rows := total,
                     output_file := Some (existing (output_file st) @ to_csv chunk_df False),
                     csv_calls := csv_calls st @ [(chunk_df, False)],
                     log_of := lg @ [(INFO, AppendedRows (length (rows chunk_df)) total)]\<rparr>)
          else st\<lparr>log_of := lg\<rparr>)"

section \<open>The pull stage\<close>

subsection \<open>Page paths and request parameters\<close>

text \<open>\<^verbatim>\<open>str(i)\<close> of a Python int: the decimal digits, with a minus sign when negative.\<close>

definition digit :: "nat \<Rightarrow> char" where
  "digit d = char_of (48 + d)"

fun str_nat :: "nat \<Rightarrow> string" where
  "str_nat n = (if n < 10 then [digit n] else str_nat (n div 10) @ [digit (n mod 10)])"

declare str_nat.simps [simp del]

definition str_int :: "int \<Rightarrow> string" where
  "str_int i = (if i < 0 then CHR ''-'' # str_nat (nat (- i)) else str_nat (nat i))"

text \<open>
  \<^verbatim>\<open>dataset_dir / f"page_{i}.json"\<close>: a page file is named by its entry in the raw
  directory.
\<close>

definition page_path :: "int \<Rightarrow> path" where
  "page_path i = ''page_'' @ str_int i @ ''.json''"

type_synonym params = "string \<Rightarrow> string option"

text \<open>\<^verbatim>\<open>params["page"] = str(i)\<close>\<close>

definition set_page :: "params \<Rightarrow> int \<Rightarrow> params" where
  "set_page ps i = ps(''page'' \<mapsto> str_int i)"

subsection \<open>The world of a run\<close>

text \<open>
  An \<^verbatim>\<open>httpx.Response\<close>: the bytes of its body and what its \<^verbatim>\<open>json()\<close> returns
  or raises. \<^verbatim>\<open>fetch_data\<close> returns one, or something that is not a response.
\<close>

record response =
  content :: bytes
  json_of :: "py_error + json"

datatype fetch_result = Response response | Failure

text \<open>
  What \<^verbatim>\<open>pull\<close> is run against. The Fetcher is not part of the modelled file:
  \<open>fetch_data P n ps\<close> is what its \<^verbatim>\<open>fetch_data(params)\<close> returns for the request
  number \<open>n\<close> made since the world began, so that the remote source may answer the
  same parameters differently over time. \<open>dumps\<close> is \<^verbatim>\<open>orjson.dumps\<close>, which
  returns the bytes of a document or raises.
\<close>

record pull_env =
  DEV_MODE :: bool
  get_total_pages :: "params \<Rightarrow> int"
  fetch_data :: "nat \<Rightarrow> params \<Rightarrow> fetch_result"
  dumps :: "json \<Rightarrow> py_error + bytes"

text \<open>
  A call of \<^verbatim>\<open>fetch_data\<close>: the loop index it was made at, the content of the
  dict passed at that moment, and the result.
\<close>

datatype call = Call (index: int) (sent: params) (answer: fetch_result)

text \<open>
  The state a run works on: the raw directory and its files by name, the
  module-level dict \<^verbatim>\<open>FETCHER_BASE_PARAMS\<close> of \<^verbatim>\<open>config.py\<close>, the calls of
  \<^verbatim>\<open>fetch_data\<close> made so far, the \<^verbatim>\<open>f.write\<close> calls made so far, the
  seconds slept, and the log.
\<close>

record world =
  raw_dir :: dir_state
  page_files :: "path \<Rightarrow> bytes option"
  FETCHER_BASE_PARAMS :: params
  requests :: "call list"
  writes :: "(path \<times> bytes) list"
  slept :: nat
  pull_log :: log

subsection \<open>The command\<close>

text \<open>
  The body of the loop for index \<open>i\<close>. The name \<^verbatim>\<open>params\<close> is bound to the
  module-level dict itself, so the assignment to \<^verbatim>\<open>params["page"]\<close> changes that
  dict. \<^verbatim>\<open>open(file_path, "wb")\<close> empties the file before \<^verbatim>\<open>response.json()\<close>
  and \<^verbatim>\<open>orjson.dumps\<close> are evaluated; an exception of either leaves the file
  empty and leaves the loop and the command, nothing being written or logged for
  the page. The file is opened in the raw directory, which the command has made.
\<close>

definition pull_page :: "pull_env \<Rightarrow> bool \<Rightarrow> int \<Rightarrow> world \<Rightarrow> world outcome" where
  "pull_page P force i w =
     (let file_path = page_path i in
      if page_files w file_path \<noteq> None \<and> \<not> force then
        Returned (w\<lparr>pull_log := pull_log w @ [(INFO, SkippingPage i)]\<rparr>)
      else
        (let ps = set_page (FETCHER_BASE_PARAMS w) i;
             result = fetch_data P (length (requests w)) ps;
             w1 = w\<lparr>FETCHER_BASE_PARAMS := ps, slept := slept w + 1,
                    requests := requests w @ [Call i ps result]\<rparr>
         in case result of
              Failure \<Rightarrow> Returned w1
            | Response r \<Rightarrow>
               (let w2 = w1\<lparr>page_files := (page_files w1)(file_path \<mapsto> [])\<rparr>
                in case json_of r of
                     Inl e \<Rightarrow> Raised e w2
                   | Inr v \<Rightarrow>
                      (case dumps P v of
                         Inl e \<Rightarrow> Raised e w2
                       | Inr data \<Rightarrow>
                          Returned (w2\<lparr>page_files := (page_files w2)(file_path \<mapsto> data),
                                       writes := writes w2 @ [(file_path, data)],
                                       pull_log := pull_log w2 @ [(SUCCESS, PageSaved i file_path)]\<rparr>)))))"

text \<open>The loop \<^verbatim>\<open>for i in range(start_page, end_page)\<close>.\<close>

fun pull_loop :: "pull_env \<Rightarrow> bool \<Rightarrow> int list \<Rightarrow> world \<Rightarrow> world outcome" where
  "pull_loop P force [] w = Returned w"
| "pull_loop P force (i # rest) w =
     (case pull_page P force i w of
        Returned w' \<Rightarrow> pull_loop P force rest w'
      | Raised e w' \<Rightarrow> Raised e w')"

definition pull_pages :: "pull_env \<Rightarrow> int \<Rightarrow> int \<Rightarrow> bool \<Rightarrow> world \<Rightarrow> world outcome" where
  "pull_pages P start_page end_page force w =
     (let total_pages = end_page - start_page;
          w1 = w\<lparr>pull_log := pull_log w @ [(INFO, TotalPages total_pages)]\<rparr>
      in case py_range start_page end_page 1 of
           Inl e \<Rightarrow> Raised e w1
         | Inr indices \<Rightarrow> pull_loop P force indices w1)"

text \<open>
  \<^verbatim>\<open>pull(start_page, end_page, force)\<close>, with \<open>None\<close> for an end page that is
  not given. The directory is made before the range is looked at.
\<close>

definition pull :: "pull_env \<Rightarrow> int \<Rightarrow> int option \<Rightarrow> bool \<Rightarrow> world \<Rightarrow> world outcome" where
  "pull P start_page end_page force w =
     (let w1 = w\<lparr>pull_log := pull_log w @ [(INFO, RetrievingData)]\<rparr>
      in case mkdir (raw_dir w1) of
           Inl e \<Rightarrow> Raised e w1
         | Inr d \<Rightarrow>
            (let w2 = w1\<lparr>raw_dir := d\<rparr>
             in case end_page of
                  Some e \<Rightarrow>
                    if e \<le> start_page then
                      Returned (w2\<lparr>pull_log := pull_log w2 @ [(ERROR, EndPageNotGreater)]\<rparr>)
                    else pull_pages P start_page e force w2
                | None \<Rightarrow>
                    if DEV_MODE P then pull_pages P start_page (start_page + 1) force w2
                    else pull_pages P start_page (get_total_pages P (FETCHER_BASE_PARAMS w2)) force w2))"

subsection \<open>Notions the statements use\<close>

text \<open>
  An index is skipped when its file is there and \<^verbatim>\<open>force\<close> is off; the others
  are fetched. The range of a run ends before \<open>last_page\<close>: the end page given,
  or the one \<^verbatim>\<open>pull\<close> computes. The payload of a fetch is the decoded body of a
  response, and a source succeeds when every fetch has one; what is serialised of
  a fetch is \<^verbatim>\<open>orjson.dumps\<close> of its payload, when there is a payload and
  \<^verbatim>\<open>orjson.dumps\<close> returns, and a source can be stored when every fetch has
  that. The calls and writes a run adds are those after the ones it found.
\<close>

definition skipped :: "bool \<Rightarrow> world \<Rightarrow> int \<Rightarrow> bool" where
  "skipped force w i = (page_files w (page_path i) \<noteq> None \<and> \<not> force)"

definition to_fetch :: "bool \<Rightarrow> world \<Rightarrow> int list \<Rightarrow> int list" where
  "to_fetch force w indices = filter (\<lambda>i. \<not> skipped force w i) indices"

definition last_page :: "pull_env \<Rightarrow> int \<Rightarrow> int option \<Rightarrow> world \<Rightarrow> int" where
  "last_page P start_page end_page w =
     (case end_page of
        Some e \<Rightarrow> e
      | None \<Rightarrow> if DEV_MODE P then start_page + 1 else get_total_pages P (FETCHER_BASE_PARAMS w))"

definition payload :: "fetch_result \<Rightarrow> json option" where
  "payload result =
     (case result of
        Failure \<Rightarrow> None
      | Response r \<Rightarrow> (case json_of r of Inl e \<Rightarrow> None | Inr v \<Rightarrow> Some v))"

definition succeeds :: "pull_env \<Rightarrow> bool" where
  "succeeds P = (\<forall>n ps. payload (fetch_data P n ps) \<noteq> None)"

definition serialised :: "pull_env \<Rightarrow> fetch_result \<Rightarrow> bytes option" where
  "serialised P result =
     (case payload result of
        None \<Rightarrow> None
      | Some v \<Rightarrow> (case dumps P v of Inl e \<Rightarrow> None | Inr data \<Rightarrow> Some data))"

definition stores :: "pull_env \<Rightarrow> bool" where
  "stores P = (\<forall>n ps. serialised P (fetch_data P n ps) \<noteq> None)"

definition new_calls :: "world \<Rightarrow> world \<Rightarrow> call list" where
  "new_calls w w' = drop (length (requests w)) (requests w')"

definition new_writes :: "world \<Rightarrow> world \<Rightarrow> (path \<times> bytes) list" where
  "new_writes w w' = drop (length (writes w)) (writes w')"

text \<open>
  A call that returned a response is saved in a world when the file of its index
  holds what is serialised of it, and is empty when nothing is (the body does not
  decode, or \<^verbatim>\<open>orjson.dumps\<close> raises); \<open>write_of\<close> is the \<^verbatim>\<open>f.write\<close> a
  call leads to, and a call of which nothing is serialised leads to none.
\<close>

definition saved :: "pull_env \<Rightarrow> world \<Rightarrow> call \<Rightarrow> bool" where
  "saved P w c =
     (case answer c of
        Failure \<Rightarrow> True
      | Response r \<Rightarrow>
          page_files w (page_path (index c)) =
            Some (case serialised P (answer c) of None \<Rightarrow> [] | Some data \<Rightarrow> data))"

definition write_of :: "pull_env \<Rightarrow> call \<Rightarrow> (path \<times> bytes) option" where
  "write_of P c = map_option (\<lambda>data. (page_path (index c), data)) (serialised P (answer c))"

text \<open>
  The compact form \<^verbatim>\<open>orjson.dumps\<close> writes: no space between tokens, strings in
  double quotes with the quote, the backslash and the control characters escaped.
  It raises \<^verbatim>\<open>JSONEncodeError\<close>, a \<^verbatim>\<open>TypeError\<close>, on a document that holds
  an integer outside the range of 64 bits.
\<close>

definition hex_digit :: "nat \<Rightarrow> char" where
  "hex_digit n = (if n < 10 then char_of (48 + n) else char_of (87 + n))"

definition escape :: "char \<Rightarrow> string" where
  "escape c =
     (let n = (of_char c :: nat) in
      if n = 0x22 then [CHR 0x5C, CHR 0x22]
      else if n = 0x5C then [CHR 0x5C, CHR 0x5C]
      else if n = 0x08 then [CHR 0x5C, CHR ''b'']
      else if n = 0x09 then [CHR 0x5C, CHR ''t'']
      else if n = 0x0A then [CHR 0x5C, CHR ''n'']
      else if n = 0x0C then [CHR 0x5C, CHR ''f'']
      else if n = 0x0D then [CHR 0x5C, CHR ''r'']
      else if n < 0x20 then [CHR 0x5C, CHR ''u'', CHR ''0'', CHR ''0'', hex_digit (n div 16), hex_digit (n mod 16)]
      else [c])"

definition quoted :: "string \<Rightarrow> string" where
  "quoted s = CHR 0x22 # concat (map escape s) @ [CHR 0x22]"

fun commas :: "string list \<Rightarrow> string" where
  "commas [] = []"
| "commas [x] = x"
| "commas (x # y # ys) = x @ CHR '','' # commas (y # ys)"

fun compact_json :: "json \<Rightarrow> bytes" where
  "compact_json JNull = ''null''"
| "compact_json (JBool b) = (if b then ''true'' else ''false'')"
| "compact_json (JInt i) = str_int i"
| "compact_json (JStr s) = quoted s"
| "compact_json (JArr xs) = CHR ''['' # commas (map compact_json xs) @ '']''"
| "compact_json (JObj kvs) =
     CHR ''{'' # commas (map (\<lambda>kv. quoted (fst kv) @ CHR '':'' # compact_json (snd kv)) kvs) @ ''}''"

fun fits_64_bits :: "json \<Rightarrow> bool" where
  "fits_64_bits (JInt i) = (- (2 ^ 63) \<le> i \<and> i < 2 ^ 64)"
| "fits_64_bits (JArr xs) = list_all fits_64_bits xs"
| "fits_64_bits (JObj kvs) = list_all (\<lambda>kv. fits_64_bits (snd kv)) kvs"
| "fits_64_bits v = True"

definition orjson_dumps :: "json \<Rightarrow> py_error + bytes" where
  "orjson_dumps v = (if fits_64_bits v then Inr (compact_json v) else Inl TypeError)"

text \<open>
  Sources to run the stage on. In the steady source every page answers with the
  same body, which has a space after the colon, and \<^verbatim>\<open>json()\<close> decodes it. In
  the big source the body of every page holds the number \<open>2 ^ 64\<close>, which
  \<^verbatim>\<open>json()\<close> decodes to a Python int. The fresh world has no raw directory yet
  and the parameters of \<^verbatim>\<open>config.py\<close>; the resumed world has the raw
  directory and in it the file of page 2.
\<close>

definition empty_page :: response where
  \<open>empty_page = \<lparr>content = ''{"list": []}'', json_of = Inr (JObj [(''list'', JArr [])])\<rparr>\<close>

definition steady_source :: pull_env where
  "steady_source =
     \<lparr>DEV_MODE = True, get_total_pages = (\<lambda>ps. 3),
      fetch_data = (\<lambda>n ps. Response empty_page), dumps = orjson_dumps\<rparr>"

definition big_page :: response where
  \<open>big_page =
     \<lparr>content = ''{"list": [18446744073709551616]}'',
      json_of = Inr (JObj [(''list'', JArr [JInt 18446744073709551616])])\<rparr>\<close>

definition big_source :: pull_env where
  "big_source = steady_source\<lparr>fetch_data := (\<lambda>n ps. Response big_page)\<rparr>"

definition fresh_world :: world where
  "fresh_world =
     \<lparr>raw_dir = Absent, page_files = Map.empty,
      FETCHER_BASE_PARAMS = [''resource'' \<mapsto> ''node.json'', ''type'' \<mapsto> ''project_issue'',
                             ''sort'' \<mapsto> ''created'', ''direction'' \<mapsto> ''ASC''],
      requests = [], writes = [], slept = 0, pull_log = []\<rparr>"

definition resumed_world :: world where
  \<open>resumed_world =
     fresh_world\<lparr>raw_dir := Directory, page_files := [''page_2.json'' \<mapsto> ''{"list":[]}'']\<rparr>\<close>

text \<open>
  For the proofs: the number a digit string stands for, the world after the call
  of \<^verbatim>\<open>fetch_data\<close> at an index, and the world in which a run enters its loop.
\<close>

definition digits_value :: "string \<Rightarrow> nat" where
  "digits_value s = foldl (\<lambda>a c. 10 * a + (of_char c - 48)) 0 s"

definition asked :: "pull_env \<Rightarrow> int \<Rightarrow> world \<Rightarrow> world" where
  "asked P i w =
     w\<lparr>FETCHER_BASE_PARAMS := set_page (FETCHER_BASE_PARAMS w) i, slept := slept w + 1,
       requests := requests w @
         [Call i (set_page (FETCHER_BASE_PARAMS w) i)
            (fetch_data P (length (requests w)) (set_page (FETCHER_BASE_PARAMS w) i))]\<rparr>"

definition entered :: "int \<Rightarrow> int \<Rightarrow> world \<Rightarrow> world" where
  "entered s e w =
     w\<lparr>raw_dir := Directory,
       pull_log := pull_log w @ [(INFO, RetrievingData), (INFO, TotalPages (e - s))]\<rparr>"

section \<open>The convert stage\<close>

subsection \<open>Tables of cells\<close>

text \<open>
  A value in a frame that \<^verbatim>\<open>read_csv\<close> returned under \<^verbatim>\<open>dtype=str\<close>: a str, or
  the float \<^verbatim>\<open>NaN\<close> for a missing field. \<^verbatim>\<open>None\<close> is a value the code tests
  for. \<open>py_str\<close> is \<^verbatim>\<open>str(x)\<close> and \<open>notna\<close> is \<^verbatim>\<open>pd.notna(x)\<close>.
\<close>

datatype cell = Text string | NaN | NoneCell

fun py_str :: "cell \<Rightarrow> string" where
  "py_str (Text s) = s"
| "py_str NaN = ''nan''"
| "py_str NoneCell = ''None''"

fun notna :: "cell \<Rightarrow> bool" where
  "notna (Text s) = True"
| "notna NaN = False"
| "notna NoneCell = False"

text \<open>A frame as its columns in order: the name and the values of each.\<close>

type_synonym table = "(string \<times> cell list) list"

definition nrows :: "table \<Rightarrow> nat" where
  "nrows t = (case t of [] \<Rightarrow> 0 | (n, vs) # cs \<Rightarrow> length vs)"

text \<open>\<^verbatim>\<open>df[col] = df[col].apply(f)\<close>\<close>

definition apply_col :: "(cell \<Rightarrow> cell) \<Rightarrow> string \<Rightarrow> table \<Rightarrow> table" where
  "apply_col f col t = map (\<lambda>(n, vs). if n = col then (n, map f vs) else (n, vs)) t"

text \<open>
  \<^verbatim>\<open>pd.concat(chunk_list, ignore_index=True)\<close>: \<^verbatim>\<open>ValueError\<close> when there is
  nothing to concatenate; else the union of the columns, a chunk that lacks a
  column giving \<^verbatim>\<open>NaN\<close> for its rows.
\<close>

definition column_of :: "table \<Rightarrow> string \<Rightarrow> cell list" where
  "column_of t c = (case map_of t c of Some vs \<Rightarrow> vs | None \<Rightarrow> replicate (nrows t) NaN)"

definition concat_tables :: "table list \<Rightarrow> py_error + table" where
  "concat_tables ts =
     (if ts = [] then Inl ValueError
      else Inr (map (\<lambda>c. (c, concat (map (\<lambda>t. column_of t c) ts)))
                  (first_seen (concat (map (map fst) ts)))))"

subsection \<open>Loading the interim table\<close>

text \<open>
  How a parquet file is written: with snappy, or without compression and with
  the deprecated timestamps.
\<close>

datatype codec = Snappy | Uncompressed_int96

text \<open>
  What \<^verbatim>\<open>convert\<close> is run against. \<open>csv_fields P n\<close> is what the tokeniser of
  \<^verbatim>\<open>read_csv\<close> makes of \<^verbatim>\<open>merged.csv\<close> with \<^verbatim>\<open>chunksize=n\<close> and
  \<^verbatim>\<open>on_bad_lines="skip"\<close> when iterated to the end: the chunks, each with the
  names of its columns and the fields of each column as text (a line with too
  many fields left out, a short line filled up with empty fields), or the
  exception of the call or of the iteration. \<open>astype_raises P col t\<close> is the
  exception of \<^verbatim>\<open>df[col].astype(str)\<close>, if it raises. \<open>to_parquet P c t\<close> is
  the exception of \<^verbatim>\<open>df.to_parquet\<close> with the settings \<open>c\<close>, if it raises.
\<close>

record convert_env =
  csv_fields :: "int \<Rightarrow> py_error + (string \<times> string list) list list"
  astype_raises :: "string \<Rightarrow> table \<Rightarrow> py_error option"
  to_parquet :: "codec \<Rightarrow> table \<Rightarrow> py_error option"

text \<open>
  \<^verbatim>\<open>pd.read_csv(..., dtype=str)\<close>. Under \<^verbatim>\<open>dtype=str\<close> a field is kept as the
  str it is, but missing values are still looked for: an empty field, and a field
  that is one of the default markers of pandas, is read as \<^verbatim>\<open>NaN\<close>.
\<close>

definition na_values :: "string list" where
  "na_values =
     ['''', ''#N/A'', ''#N/A N/A'', ''#NA'', ''-1.#IND'', ''-1.#QNAN'', ''-NaN'', ''-nan'',
      ''1.#IND'', ''1.#QNAN'', ''<NA>'', ''N/A'', ''NA'', ''NULL'', ''NaN'', ''None'', ''n/a'',
      ''nan'', ''null'']"

definition parse_field :: "string \<Rightarrow> cell" where
  "parse_field f = (if f \<in> set na_values then NaN else Text f)"

definition parse_chunk :: "(string \<times> string list) list \<Rightarrow> table" where
  "parse_chunk chunk = map (\<lambda>(n, fs). (n, map parse_field fs)) chunk"

definition read_csv :: "convert_env \<Rightarrow> int \<Rightarrow> py_error + table list" where
  "read_csv P chunk_size =
     (case csv_fields P chunk_size of
        Inl e \<Rightarrow> Inl e
      | Inr chunks \<Rightarrow> Inr (map parse_chunk chunks))"

text \<open>The \<^verbatim>\<open>lambda\<close> of the loader, and its loop over the columns of one chunk.\<close>

definition fill :: "cell \<Rightarrow> cell" where
  "fill x = (if notna x then Text (py_str x) else Text '''')"

definition fill_chunk :: "table \<Rightarrow> table" where
  "fill_chunk chunk = fold (apply_col fill) (map fst chunk) chunk"

definition load_large_csv_to_pd :: "convert_env \<Rightarrow> int \<Rightarrow> py_error + table" where
  "load_large_csv_to_pd P chunk_size =
     (case read_csv P chunk_size of
        Inl e \<Rightarrow> Inl e
      | Inr chunks \<Rightarrow> concat_tables (map fill_chunk chunks))"

subsection \<open>The command\<close>

text \<open>
  The state: what is at the paths of the two directories, the successful
  \<^verbatim>\<open>to_parquet\<close> calls so far (the frame and the settings), the content of
  \<^verbatim>\<open>merged.parquet\<close>, and the log.
\<close>

record store =
  interim_dir :: dir_state
  raw_data_dir :: dir_state
  written :: "(table \<times> codec) list"
  parquet_file :: "(table \<times> codec) option"
  convert_log :: log

text \<open>
  The safety check for one column: \<^verbatim>\<open>astype(str)\<close>, and on an exception the
  warning and the \<^verbatim>\<open>lambda\<close> that maps \<^verbatim>\<open>None\<close> to the empty string.
\<close>

definition as_str :: "cell \<Rightarrow> cell" where
  "as_str x = Text (py_str x)"

definition str_unless_none :: "cell \<Rightarrow> cell" where
  "str_unless_none x = (if x \<noteq> NoneCell then Text (py_str x) else Text '''')"

definition coerce_col :: "convert_env \<Rightarrow> string \<Rightarrow> table \<times> log \<Rightarrow> table \<times> log" where
  "coerce_col P col acc =
     (case acc of (df, lg) \<Rightarrow>
        (case astype_raises P col df of
           None \<Rightarrow> (apply_col as_str col df, lg)
         | Some e \<Rightarrow> (apply_col str_unless_none col df, lg @ [(WARNING, ColumnIssue col e)])))"

text \<open>The exceptions \<^verbatim>\<open>except (ImportError, ValueError, OSError)\<close> catches, with their subclasses.\<close>

fun parquet_error :: "py_error \<Rightarrow> bool" where
  "parquet_error ImportError = True"
| "parquet_error ValueError = True"
| "parquet_error JSONDecodeError = True"
| "parquet_error EmptyDataError = True"
| "parquet_error OSError = True"
| "parquet_error FileNotFoundError = True"
| "parquet_error FileExistsError = True"
| "parquet_error e = False"

text \<open>
  \<^verbatim>\<open>df.to_parquet(...)\<close> with its \<^verbatim>\<open>except\<close> clause: the fallback write runs
  for the exceptions the clause names, and what the fallback raises is not caught
  here.
\<close>

definition save :: "codec \<Rightarrow> table \<Rightarrow> store \<Rightarrow> store" where
  "save c df w = w\<lparr>written := written w @ [(df, c)], parquet_file := Some (df, c)\<rparr>"

definition write_parquet :: "convert_env \<Rightarrow> table \<Rightarrow> store \<Rightarrow> store outcome" where
  "write_parquet P df w =
     (case to_parquet P Snappy df of
        None \<Rightarrow>
          Returned ((save Snappy df w)\<lparr>convert_log := convert_log w @ [(SUCCESS, ConvertedToParquet)]\<rparr>)
      | Some e \<Rightarrow>
          if parquet_error e then
            (let w1 = w\<lparr>convert_log := convert_log w @ [(ERROR, ParquetError e)]\<rparr>
             in case to_parquet P Uncompressed_int96 df of
                  None \<Rightarrow>
                    Returned ((save Uncompressed_int96 df w1)
                      \<lparr>convert_log := convert_log w1 @ [(SUCCESS, ConvertedWithFallback)]\<rparr>)
                | Some e' \<Rightarrow> Raised e' w1)
          else Raised e w)"

text \<open>The body of the outer \<^verbatim>\<open>try\<close>.\<close>

definition convert_body :: "convert_env \<Rightarrow> int \<Rightarrow> store \<Rightarrow> store outcome" where
  "convert_body P chunk_size w =
     (let w1 = w\<lparr>convert_log := convert_log w @ [(INFO, ConvertingToParquet)]\<rparr>
      in case load_large_csv_to_pd P chunk_size of
           Inl e \<Rightarrow> Raised e w1
         | Inr df \<Rightarrow>
            (case fold (coerce_col P) (map fst df)
                    (df, convert_log w1 @ [(INFO, LoadedRows (nrows df)), (DEBUG, ConvertingColumns)]) of
               (df', lg) \<Rightarrow> write_parquet P df' (w1\<lparr>convert_log := lg\<rparr>)))"

text \<open>
  \<^verbatim>\<open>convert(chunk_size)\<close>: the two \<^verbatim>\<open>mkdir\<close> calls, then the \<^verbatim>\<open>try\<close> with its
  \<^verbatim>\<open>except Exception\<close>, which logs and returns.
\<close>

definition convert :: "convert_env \<Rightarrow> int \<Rightarrow> store \<Rightarrow> store outcome" where
  "convert P chunk_size w =
     (case mkdir (interim_dir w) of
        Inl e \<Rightarrow> Raised e w
      | Inr d \<Rightarrow>
         (let w1 = w\<lparr>interim_dir := d\<rparr>
          in case mkdir (raw_data_dir w1) of
               Inl e \<Rightarrow> Raised e w1
             | Inr d' \<Rightarrow>
                (case convert_body P chunk_size (w1\<lparr>raw_data_dir := d'\<rparr>) of
                   Returned w2 \<Rightarrow> Returned w2
                 | Raised e w2 \<Rightarrow>
                     Returned (w2\<lparr>convert_log := convert_log w2 @ [(ERROR, ConversionFailed e)]\<rparr>))))"

subsection \<open>Notions the statements use\<close>

text \<open>
  A frame has text type when every value of every column is a str. The text of a
  value read is the str itself, and the empty string for a missing one; the text
  of a field of the interim table is the field, and the empty string for an empty
  field and for a marker of a missing value. The frames a run writes are those
  after the ones it found written. \<open>as_text\<close> is the frame of the chunks read,
  column by column, every value replaced by its text, and \<open>as_field_text\<close> the
  frame of the chunks of fields, every field replaced by its text.
\<close>

fun is_Text :: "cell \<Rightarrow> bool" where
  "is_Text (Text s) = True"
| "is_Text x = False"

definition all_text :: "table \<Rightarrow> bool" where
  "all_text t = list_all (\<lambda>col. list_all is_Text (snd col)) t"

fun text_of :: "cell \<Rightarrow> string" where
  "text_of (Text s) = s"
| "text_of x = ''''"

definition new_written :: "store \<Rightarrow> store \<Rightarrow> (table \<times> codec) list" where
  "new_written w w' = drop (length (written w)) (written w')"

definition as_text :: "string list \<Rightarrow> table list \<Rightarrow> table" where
  "as_text names chunks =
     map (\<lambda>c. (c, concat (map (\<lambda>chunk. map (\<lambda>x. Text (text_of x)) (column_of chunk c)) chunks))) names"

definition field_text :: "string \<Rightarrow> string" where
  "field_text f = (if f \<in> set na_values then '''' else f)"

definition fields_of :: "(string \<times> string list) list \<Rightarrow> string \<Rightarrow> string list" where
  "fields_of chunk c = (case map_of chunk c of Some fs \<Rightarrow> fs | None \<Rightarrow> [])"

definition as_field_text :: "string list \<Rightarrow> (string \<times> string list) list list \<Rightarrow> table" where
  "as_field_text names chunks =
     map (\<lambda>c. (c, concat (map (\<lambda>chunk. map (\<lambda>f. Text (field_text f)) (fields_of chunk c)) chunks))) names"

text \<open>
  The store once both directories are made, and a set of column names whose
  columns hold text only.
\<close>

definition ready :: "store \<Rightarrow> store" where
  "ready w = w\<lparr>interim_dir := Directory, raw_data_dir := Directory\<rparr>"

definition texts_in :: "string set \<Rightarrow> table \<Rightarrow> bool" where
  "texts_in S t = (\<forall>col \<in> set t. fst col \<in> S \<longrightarrow> list_all is_Text (snd col))"

text \<open>
  Interim tables to run the stage on. The mixed table has three rows in chunks of
  two, with a column that mixes \<^verbatim>\<open>3\<close>, an empty field and \<^verbatim>\<open>abc\<close>; pyarrow
  writes it. \<open>no_parquet\<close> is the same table where pyarrow is missing for the
  first write and the fallback write raises a \<^verbatim>\<open>TypeError\<close>. The marked table
  has three rows whose titles are \<^verbatim>\<open>NA\<close>, \<^verbatim>\<open>null\<close> and \<^verbatim>\<open>abc\<close>. In the
  blocked store a file sits at the path of the interim directory.
\<close>

definition mixed_csv :: convert_env where
  "mixed_csv =
     \<lparr>csv_fields = (\<lambda>n. if n < 1 then Inl ValueError
                         else Inr [[(''id'', [''3'', '''']), (''title'', [''abc'', ''x''])],
                                   [(''id'', [''abc'']), (''title'', [''''])]]),
      astype_raises = (\<lambda>col df. None),
      to_parquet = (\<lambda>c df. None)\<rparr>"

definition marked_csv :: convert_env where
  "marked_csv =
     mixed_csv\<lparr>csv_fields := (\<lambda>n. if n < 1 then Inl ValueError
                         else Inr [[(''id'', [''1'', ''2'', ''3'']),
                                    (''title'', [''NA'', ''null'', ''abc''])]])\<rparr>"

definition no_parquet :: convert_env where
  "no_parquet = mixed_csv\<lparr>to_parquet := (\<lambda>c df. if c = Snappy then Some ImportError else Some TypeError)\<rparr>"

definition empty_store :: store where
  "empty_store =
     \<lparr>interim_dir = Directory, raw_data_dir = Absent, written = [], parquet_file = None,
      convert_log = []\<rparr>"

definition blocked_store :: store where
  "blocked_store = empty_store\<lparr>interim_dir := NotADirectory\<rparr>"

section \<open>Properties of the merge stage\<close>

lemma read_chunk_fst:
  "fst (read_chunk E files (dfs, lg)) = dfs @ List.map_filter (\<lambda>f. fst (process_file E f)) files"
  by (induction files arbitrary: dfs lg)
     (auto simp: List.map_filter_simps split: prod.splits option.splits)

lemma chunk_frames_eq: "chunk_frames E files = List.map_filter (\<lambda>f. fst (process_file E f)) files"
  by (simp add: chunk_frames_def read_chunk_fst)

lemma read_chunk_frames: "fst (read_chunk E files ([], lg)) = chunk_frames E files"
  by (simp add: chunk_frames_eq read_chunk_fst)

lemma take_chunks:
  "concat (map (\<lambda>k. take c (drop (k * c) xs)) [0..<m]) = take (m * c) xs"
proof (induction m)
  case 0 show ?case by simp
next
  case (Suc m)
  have "take (m * c) xs @ take c (drop (m * c) xs) = take (m * c + c) xs"
    by (simp add: take_add)
  with Suc show ?case by (simp add: add.commute)
qed

lemma chunk_of_nat:
  assumes "0 < c"
  shows "chunk_of xs c (int k * c) = take (nat c) (drop (k * nat c) xs)"
proof -
  have nn: "\<not> int k * c < 0" "\<not> int k * c + c < 0"
    using assms by (auto simp: not_less intro: add_nonneg_nonneg)
  have "nat (int k * c) = k * nat c" "nat (int k * c + c) = k * nat c + nat c"
    using assms by (simp_all add: nat_mult_distrib nat_add_distrib)
  then have a: "clip (length xs) (int k * c) = min (k * nat c) (length xs)"
    and b: "clip (length xs) (int k * c + c) = min (k * nat c + nat c) (length xs)"
    using nn by (simp_all only: clip_def if_False)
  show ?thesis
    unfolding chunk_of_def py_slice_def a b
    by (cases "k * nat c \<le> length xs") (auto simp: min_def)
qed

lemma batches_cover:
  assumes "0 < c"
  shows "concat (batches xs c) = xs"
proof -
  let ?m = "nat ((int (length xs) + c - 1) div c)"
  have "batches xs c = map (\<lambda>k. take (nat c) (drop (k * nat c) xs)) [0..<?m]"
    using assms by (simp add: batches_def py_range_def chunk_of_nat comp_def)
  then have "concat (batches xs c) = take (?m * nat c) xs"
    by (simp add: take_chunks)
  moreover have "int (length xs) \<le> int (?m * nat c)"
  proof -
    have "int (?m * nat c) = ((int (length xs) + c - 1) div c) * c"
      using assms by (simp add: pos_imp_zdiv_nonneg_iff)
    moreover have "(int (length xs) + c - 1) = ((int (length xs) + c - 1) div c) * c + (int (length xs) + c - 1) mod c"
      by simp
    moreover have "(int (length xs) + c - 1) mod c < c" using assms by simp
    ultimately show ?thesis by linarith
  qed
  ultimately show ?thesis by simp
qed

lemma contains_list_obj: "contains_list (JObj kvs) = Inr (map_of kvs ''list'' \<noteq> None)"
  by (simp add: map_of_eq_None_iff)

lemma getitem_not_obj: "\<not> is_JObj v \<Longrightarrow> getitem_list v = Inl TypeError"
  by (cases v) simp_all

lemma process_not_obj:
  assumes "raw_files E file = Some b" "loads E b = Inr v" "\<not> is_JObj v"
  shows "fst (process_file E file) = None"
  using assms by (simp add: process_file_def getitem_not_obj split: sum.splits bool.splits)

lemma rows_due_frame:
  "rows_due other v =
     (if truthy v then (case DataFrame other v of Inl e \<Rightarrow> 0 | Inr df \<Rightarrow> length (rows df)) else 0)"
proof (cases v)
  case (JArr rs)
  show ?thesis
  proof (cases rs)
    case Nil
    with JArr show ?thesis by (simp add: rows_due_def)
  next
    case (Cons r rs')
    with JArr show ?thesis
      by (auto simp: rows_due_def DataFrame_def is_records_def)
  qed
qed (simp_all add: rows_due_def DataFrame_def is_records_def)

lemma file_rows_expected: "file_rows E file = expected_rows E file"
proof (cases "raw_files E file")
  case None
  then show ?thesis
    by (simp add: file_rows_def process_file_def expected_rows_def list_field_def parsed_def)
next
  case (Some b)
  show ?thesis
  proof (cases "loads E b")
    case (Inl e)
    with Some show ?thesis
      by (simp add: file_rows_def process_file_def expected_rows_def list_field_def parsed_def)
  next
    case (Inr v)
    show ?thesis
    proof (cases "is_JObj v")
      case False
      then have "list_field E file = None"
        using Some Inr by (cases v) (simp_all add: list_field_def parsed_def)
      moreover have "fst (process_file E file) = None"
        using process_not_obj [OF Some Inr False] .
      ultimately show ?thesis by (simp add: file_rows_def expected_rows_def)
    next
      case True
      then obtain kvs where v: "v = JObj kvs" by (cases v) simp_all
      have lf: "list_field E file = map_of kvs ''list''"
        using Some Inr v by (simp add: list_field_def parsed_def)
      show ?thesis
      proof (cases "map_of kvs ''list''")
        case None
        then show ?thesis
          using Some Inr v lf
          by (simp add: file_rows_def expected_rows_def process_file_def contains_list_obj
                   del: contains_list.simps)
      next
        case (Some w)
        show ?thesis
          using \<open>raw_files E file = Some b\<close> Inr v lf Some
          by (simp add: file_rows_def expected_rows_def process_file_def contains_list_obj
                        rows_due_frame [of "frame_of_other E" w]
                   del: contains_list.simps split: sum.splits)
      qed
    qed
  qed
qed

lemma expected_list_length:
  assumes "lists_hold_records E file"
  shows "expected_rows E file = list_length E file"
proof (cases "list_field E file")
  case None
  then show ?thesis by (simp add: expected_rows_def list_length_def)
next
  case (Some w)
  with assms have "record_list w \<or> \<not> truthy w" by (simp add: lists_hold_records_def)
  then have "rows_due (frame_of_other E) w = (case w of JArr rs \<Rightarrow> length rs | _ \<Rightarrow> 0)"
    by (cases w) (auto simp: rows_due_def)
  with Some show ?thesis
    by (simp add: expected_rows_def list_length_def split: json.splits)
qed

lemma frames_rows:
  "sum_list (map (\<lambda>df. length (rows df)) (chunk_frames E files)) = sum_list (map (file_rows E) files)"
  unfolding chunk_frames_eq
  by (induction files) (auto simp: List.map_filter_simps file_rows_def split: option.splits)

lemma rows_pd_concat: "length (rows (pd_concat dfs)) = sum_list (map (\<lambda>df. length (rows df)) dfs)"
  by (simp add: pd_concat_def length_concat comp_def)

lemma wrote_chunk_cases:
  "chunk_frames E b = [] \<Longrightarrow>
     wrote_chunk E b st = st\<lparr>log_of := snd (read_chunk E b ([], log_of st))\<rparr>"
  "chunk_frames E b \<noteq> [] \<Longrightarrow> first_chunk st \<Longrightarrow>
     wrote_chunk E b st =
       st\<lparr>first_chunk := False,
          total_rows := total_rows st + length (rows (pd_concat (chunk_frames E b))),
          output_file := Some (to_csv (pd_concat (chunk_frames E b)) True),
          csv_calls := csv_calls st @ [(pd_concat (chunk_frames E b), True)],
          log_of := snd (read_chunk E b ([], log_of st)) @
                     [(INFO, CreatedOutput (length (rows (pd_concat (chunk_frames E b)))))]\<rparr>"
  "chunk_frames E b \<noteq> [] \<Longrightarrow> \<not> first_chunk st \<Longrightarrow>
     wrote_chunk E b st =
       st\<lparr>total_rows := total_rows st + length (rows (pd_concat (chunk_frames E b))),
          output_file := Some (existing (output_file st) @ to_csv (pd_concat (chunk_frames E b)) False),
          csv_calls := csv_calls st @ [(pd_concat (chunk_frames E b), False)],
          log_of := snd (read_chunk E b ([], log_of st)) @
                     [(INFO, AppendedRows (length (rows (pd_concat (chunk_frames E b))))
                         (total_rows st + length (rows (pd_concat (chunk_frames E b)))))]\<rparr>"
proof -
  obtain dfs lg where rc: "read_chunk E b ([], log_of st) = (dfs, lg)"
    by (cases "read_chunk E b ([], log_of st)")
  with read_chunk_frames [of E b "log_of st"] have dfs: "dfs = chunk_frames E b" by simp
  show "chunk_frames E b = [] \<Longrightarrow>
     wrote_chunk E b st = st\<lparr>log_of := snd (read_chunk E b ([], log_of st))\<rparr>"
    by (simp add: wrote_chunk_def rc dfs)
  show "chunk_frames E b \<noteq> [] \<Longrightarrow> first_chunk st \<Longrightarrow>
     wrote_chunk E b st =
       st\<lparr>first_chunk := False,
          total_rows := total_rows st + length (rows (pd_concat (chunk_frames E b))),
          output_file := Some (to_csv (pd_concat (chunk_frames E b)) True),
          csv_calls := csv_calls st @ [(pd_concat (chunk_frames E b), True)],
          log_of := snd (read_chunk E b ([], log_of st)) @
                     [(INFO, CreatedOutput (length (rows (pd_concat (chunk_frames E b)))))]\<rparr>"
    by (simp add: wrote_chunk_def rc dfs Let_def)
  show "chunk_frames E b \<noteq> [] \<Longrightarrow> \<not> first_chunk st \<Longrightarrow>
     wrote_chunk E b st =
       st\<lparr>total_rows := total_rows st + length (rows (pd_concat (chunk_frames E b))),
          output_file := Some (existing (output_file st) @ to_csv (pd_concat (chunk_frames E b)) False),
          csv_calls := csv_calls st @ [(pd_concat (chunk_frames E b), False)],
          log_of := snd (read_chunk E b ([], log_of st)) @
                     [(INFO, AppendedRows (length (rows (pd_concat (chunk_frames E b))))
                         (total_rows st + length (rows (pd_concat (chunk_frames E b)))))]\<rparr>"
    by (simp add: wrote_chunk_def rc dfs Let_def)
qed

lemma wrote_chunk_total:
  "total_rows (wrote_chunk E b st) = total_rows st + sum_list (map (file_rows E) b)"
proof (cases "chunk_frames E b = []")
  case True
  then show ?thesis
    using frames_rows [of E b] by (simp add: wrote_chunk_cases(1))
next
  case False
  then show ?thesis
    using frames_rows [of E b]
    by (cases "first_chunk st") (simp_all add: wrote_chunk_cases rows_pd_concat)
qed

lemma wrote_chunk_written:
  "rows_written (wrote_chunk E b st) = rows_written st + sum_list (map (file_rows E) b)"
proof (cases "chunk_frames E b = []")
  case True
  then show ?thesis
    using frames_rows [of E b] by (simp add: wrote_chunk_cases(1) rows_written_def)
next
  case False
  then show ?thesis
    using frames_rows [of E b]
    by (cases "first_chunk st") (simp_all add: wrote_chunk_cases rows_pd_concat rows_written_def)
qed

lemma merge_chunk_wrote:
  assumes "interim E = Directory \<or> chunk_frames E b = []"
  shows "merge_chunk E b st = Returned (wrote_chunk E b st)"
proof -
  obtain dfs lg where rc: "read_chunk E b ([], log_of st) = (dfs, lg)"
    by (cases "read_chunk E b ([], log_of st)")
  with read_chunk_frames [of E b "log_of st"] have dfs: "dfs = chunk_frames E b" by simp
  show ?thesis
    using assms by (auto simp: merge_chunk_def wrote_chunk_def rc dfs Let_def)
qed

lemma merge_chunk_blocked:
  assumes "interim E \<noteq> Directory" "chunk_frames E b \<noteq> []"
  shows "\<exists>st'. merge_chunk E b st = Raised OSError st' \<and> csv_calls st' = csv_calls st \<and>
           output_file st' = output_file st"
proof -
  obtain dfs lg where rc: "read_chunk E b ([], log_of st) = (dfs, lg)"
    by (cases "read_chunk E b ([], log_of st)")
  with read_chunk_frames [of E b "log_of st"] have dfs: "dfs = chunk_frames E b" by simp
  show ?thesis
    using assms by (simp add: merge_chunk_def rc dfs Let_def)
qed

lemma merge_chunks_fold:
  assumes "interim E = Directory \<or> filter (\<lambda>b. chunk_frames E b \<noteq> []) bs = []"
  shows "merge_chunks E bs st = Returned (fold (wrote_chunk E) bs st)"
  using assms
proof (induction bs arbitrary: st)
  case Nil
  show ?case by simp
next
  case (Cons b bs)
  then have h: "interim E = Directory \<or> chunk_frames E b = []"
    "interim E = Directory \<or> filter (\<lambda>b. chunk_frames E b \<noteq> []) bs = []"
    by (auto split: if_splits)
  show ?case
    by (simp add: merge_chunk_wrote [OF h(1)] Cons.IH [OF h(2)])
qed

lemma merge_chunks_blocked:
  assumes "interim E \<noteq> Directory" "filter (\<lambda>b. chunk_frames E b \<noteq> []) bs \<noteq> []"
  shows "\<exists>st'. merge_chunks E bs st = Raised OSError st' \<and> csv_calls st' = csv_calls st \<and>
           output_file st' = output_file st"
  using assms(2)
proof (induction bs arbitrary: st)
  case Nil
  then show ?case by simp
next
  case (Cons b bs)
  show ?case
  proof (cases "chunk_frames E b = []")
    case True
    with Cons.prems have "filter (\<lambda>b. chunk_frames E b \<noteq> []) bs \<noteq> []" by simp
    from Cons.IH [OF this, of "wrote_chunk E b st"] True show ?thesis
      by (simp add: merge_chunk_wrote wrote_chunk_cases(1))
  next
    case False
    from merge_chunk_blocked [OF assms(1) False, of st] show ?thesis by auto
  qed
qed

lemma merge_no_files:
  "merge E [] out cs =
     Returned ((start_state [] out cs)\<lparr>log_of := log_of (start_state [] out cs) @ [(WARNING, NoFilesToMerge)]\<rparr>)"
  by (simp add: merge_def start_state_def)

lemma merge_zero: "files \<noteq> [] \<Longrightarrow> merge E files out 0 = Raised ValueError (start_state files out 0)"
  by (simp add: merge_def start_state_def py_range_def)

lemma merge_returns:
  assumes "files \<noteq> []" "cs \<noteq> 0"
    "interim E = Directory \<or> nonempty_batches E files cs = []"
  shows "merge E files out cs =
     Returned ((fold (wrote_chunk E) (batches files cs) (start_state files out cs))
       \<lparr>log_of := log_of (fold (wrote_chunk E) (batches files cs) (start_state files out cs)) @
          [(SUCCESS, MergedSaved (total_rows (fold (wrote_chunk E) (batches files cs) (start_state files out cs))))]\<rparr>)"
proof -
  have "\<exists>starts. py_range 0 (int (length files)) cs = Inr starts"
    using assms(2) by (simp add: py_range_def)
  then obtain starts where r: "py_range 0 (int (length files)) cs = Inr starts" ..
  then have b: "batches files cs = map (chunk_of files cs) starts"
    by (simp add: batches_def)
  have "merge_chunks E (batches files cs) (start_state files out cs) =
        Returned (fold (wrote_chunk E) (batches files cs) (start_state files out cs))"
    using assms(3) by (intro merge_chunks_fold) (simp add: nonempty_batches_def)
  then show ?thesis
    using assms(1) by (simp add: merge_def r b [symmetric] start_state_def Let_def)
qed

lemma merge_blocked:
  assumes "interim E \<noteq> Directory" "nonempty_batches E files cs \<noteq> []"
  shows "raised (merge E files out cs) = Some OSError"
    and "csv_calls (final (merge E files out cs)) = []"
    and "output_file (final (merge E files out cs)) = out"
proof -
  from assms(2) have ne: "batches files cs \<noteq> []" by (auto simp: nonempty_batches_def)
  then obtain starts where r: "py_range 0 (int (length files)) cs = Inr starts"
    and b: "batches files cs = map (chunk_of files cs) starts"
    by (auto simp: batches_def split: sum.splits)
  from ne have f: "files \<noteq> []"
    by (cases "cs = 0"; cases "0 < cs") (auto simp: batches_def py_range_def)
  from merge_chunks_blocked [OF assms(1), of "batches files cs" "start_state files out cs"] assms(2)
  obtain st' where st': "merge_chunks E (batches files cs) (start_state files out cs) = Raised OSError st'"
    "csv_calls st' = []" "output_file st' = out"
    by (auto simp: nonempty_batches_def start_state_def)
  then have m: "merge E files out cs = Raised OSError st'"
    using f by (simp add: merge_def r b [symmetric] start_state_def Let_def)
  show "raised (merge E files out cs) = Some OSError"
    "csv_calls (final (merge E files out cs)) = []"
    "output_file (final (merge E files out cs)) = out"
    by (simp_all add: m st')
qed

lemma batches_degenerate: "files = [] \<or> cs = 0 \<Longrightarrow> concat (batches files cs) = []"
  by (auto simp: batches_def py_range_def)

lemma fold_total:
  "total_rows (fold (wrote_chunk E) bs st) = total_rows st + sum_list (map (file_rows E) (concat bs))"
  by (induction bs arbitrary: st) (simp_all add: wrote_chunk_total)

lemma fold_written:
  "rows_written (fold (wrote_chunk E) bs st) = rows_written st + sum_list (map (file_rows E) (concat bs))"
  by (induction bs arbitrary: st) (simp_all add: wrote_chunk_written)

lemma rows_written_simps:
  "rows_written (st\<lparr>log_of := l\<rparr>) = rows_written st"
  "rows_written (start_state files out cs) = 0"
  by (simp_all add: rows_written_def start_state_def)

lemma merge_total:
  assumes "interim E = Directory"
  shows "total_rows (final (merge E files out cs)) = sum_list (map (file_rows E) (concat (batches files cs)))"
    and "rows_written (final (merge E files out cs)) = sum_list (map (file_rows E) (concat (batches files cs)))"
proof -
  consider "files = []" | "files \<noteq> []" "cs = 0" | "files \<noteq> []" "cs \<noteq> 0" by blast
  then show "total_rows (final (merge E files out cs)) = sum_list (map (file_rows E) (concat (batches files cs)))"
  proof cases
    case 1 then show ?thesis by (simp add: merge_no_files batches_degenerate start_state_def)
  next
    case 2 then show ?thesis by (simp add: merge_zero batches_degenerate start_state_def)
  next
    case 3 then show ?thesis using assms by (simp add: merge_returns fold_total start_state_def)
  qed
  consider "files = []" | "files \<noteq> []" "cs = 0" | "files \<noteq> []" "cs \<noteq> 0" by blast
  then show "rows_written (final (merge E files out cs)) = sum_list (map (file_rows E) (concat (batches files cs)))"
  proof cases
    case 1 then show ?thesis by (simp add: merge_no_files batches_degenerate rows_written_simps)
  next
    case 2 then show ?thesis by (simp add: merge_zero batches_degenerate rows_written_simps)
  next
    case 3 then show ?thesis using assms by (simp add: merge_returns fold_written rows_written_simps)
  qed
qed

lemma merge_raised:
  assumes "interim E = Directory"
  shows "raised (merge E files out cs) = (if files \<noteq> [] \<and> cs = 0 then Some ValueError else None)"
  using assms
  by (cases "files = []"; cases "cs = 0") (simp_all add: merge_no_files merge_zero merge_returns)

lemma batches_subset: "set (concat (batches files cs)) \<subseteq> set files"
  by (auto simp: batches_def chunk_of_def py_slice_def split: sum.splits
           dest!: in_set_takeD in_set_dropD)

lemma fold_first:
  "first_chunk (fold (wrote_chunk E) bs st) = (first_chunk st \<and> list_all (\<lambda>b. chunk_frames E b = []) bs)"
proof (induction bs arbitrary: st)
  case Nil show ?case by simp
next
  case (Cons b bs)
  show ?case
    by (cases "chunk_frames E b = []"; cases "first_chunk st") (simp_all add: Cons wrote_chunk_cases)
qed

lemma fold_appending:
  assumes "\<not> first_chunk st"
  shows "csv_calls (fold (wrote_chunk E) bs st) =
           csv_calls st @ map (\<lambda>b. (batch_frame E b, False)) (filter (\<lambda>b. chunk_frames E b \<noteq> []) bs)"
    and "filter (\<lambda>b. chunk_frames E b \<noteq> []) bs \<noteq> [] \<Longrightarrow> 
         output_file (fold (wrote_chunk E) bs st) =
           Some (existing (output_file st) @
                 concat (map (\<lambda>b. to_csv (batch_frame E b) False) (filter (\<lambda>b. chunk_frames E b \<noteq> []) bs)))"
    and "filter (\<lambda>b. chunk_frames E b \<noteq> []) bs = [] \<Longrightarrow> 
         output_file (fold (wrote_chunk E) bs st) = output_file st"
  using assms
proof (induction bs arbitrary: st)
  case Nil
  { case 1 show ?case by simp }
  { case 2 then show ?case by simp }
  { case 3 show ?case by simp }
next
  case (Cons b bs)
  { case 1 
    show ?case
    proof (cases "chunk_frames E b = []")
      case True
      with 1 Cons(1) [of "wrote_chunk E b st"] show ?thesis by (simp add: wrote_chunk_cases)
    next
      case False
      with 1 Cons(1) [of "wrote_chunk E b st"] show ?thesis
        by (simp add: wrote_chunk_cases batch_frame_def)
    qed }
  { case 2
    show ?case
    proof (cases "chunk_frames E b = []")
      case True
      with 2 Cons(2) [of "wrote_chunk E b st"] show ?thesis by (simp add: wrote_chunk_cases)
    next
      case False
      show ?thesis
      proof (cases "filter (\<lambda>b. chunk_frames E b \<noteq> []) bs = []")
        case True
        with False 2 Cons(3) [of "wrote_chunk E b st"] show ?thesis
          by (simp add: wrote_chunk_cases batch_frame_def)
      next
        case nonempty: False
        with False 2 Cons(2) [of "wrote_chunk E b st"] show ?thesis
          by (simp add: wrote_chunk_cases batch_frame_def existing_def)
      qed
    qed }
  { case 3
    then have "chunk_frames E b = []" "filter (\<lambda>b. chunk_frames E b \<noteq> []) bs = []"
      by (simp_all split: if_splits)
    with 3 Cons(3) [of "wrote_chunk E b st"] show ?case by (simp add: wrote_chunk_cases) }
qed

lemma batches_none: "files = [] \<or> cs = 0 \<Longrightarrow> batches files cs = []"
  by (auto simp: batches_def py_range_def)

lemma to_csv_header: "to_csv df True = Header (columns df) # to_csv df False"
  by (simp add: to_csv_def)

lemma to_csv_data: "list_all is_Data (to_csv df False)"
  by (simp add: to_csv_def list_all_iff)

lemma fold_nothing:
  assumes "filter (\<lambda>b. chunk_frames E b \<noteq> []) bs = []"
  shows "csv_calls (fold (wrote_chunk E) bs st) = csv_calls st"
    and "output_file (fold (wrote_chunk E) bs st) = output_file st"
    and "total_rows (fold (wrote_chunk E) bs st) = total_rows st"
  using assms
proof (induction bs arbitrary: st)
  case Nil
  { case 1 show ?case by simp }
  { case 2 show ?case by simp }
  { case 3 show ?case by simp }
next
  case (Cons b bs)
  { case 1
    then have e: "chunk_frames E b = []" "filter (\<lambda>b. chunk_frames E b \<noteq> []) bs = []"
      by (simp_all split: if_splits)
    with Cons(1) [of "wrote_chunk E b st"] show ?case by (simp add: wrote_chunk_cases) }
  { case 2
    then have e: "chunk_frames E b = []" "filter (\<lambda>b. chunk_frames E b \<noteq> []) bs = []"
      by (simp_all split: if_splits)
    with Cons(2) [of "wrote_chunk E b st"] show ?case by (simp add: wrote_chunk_cases) }
  { case 3
    then have e: "chunk_frames E b = []" "filter (\<lambda>b. chunk_frames E b \<noteq> []) bs = []"
      by (simp_all split: if_splits)
    with Cons(3) [of "wrote_chunk E b st"] show ?case by (simp add: wrote_chunk_cases) }
qed

lemma fold_first_write:
  assumes "first_chunk st" "filter (\<lambda>b. chunk_frames E b \<noteq> []) bs = b # rest"
  shows "csv_calls (fold (wrote_chunk E) bs st) =
           csv_calls st @ (batch_frame E b, True) # map (\<lambda>b. (batch_frame E b, False)) rest"
    and "output_file (fold (wrote_chunk E) bs st) =
           Some (to_csv (batch_frame E b) True @ concat (map (\<lambda>b. to_csv (batch_frame E b) False) rest))"
  using assms
proof (induction bs arbitrary: st)
  case Nil
  { case 1 then show ?case by simp }
  { case 2 then show ?case by simp }
next
  case (Cons a bs)
  { case 1
    show ?case
    proof (cases "chunk_frames E a = []")
      case True
      with 1 Cons(1) [of "wrote_chunk E a st"] show ?thesis by (simp add: wrote_chunk_cases)
    next
      case False
      with 1 have ab: "a = b" "filter (\<lambda>b. chunk_frames E b \<noteq> []) bs = rest" by simp_all
      have nf: "\<not> first_chunk (wrote_chunk E a st)"
        using False 1 by (simp add: wrote_chunk_cases)
      show ?thesis
        using fold_appending(1) [OF nf, where bs = bs] False 1 ab
        by (simp add: wrote_chunk_cases batch_frame_def)
    qed }
  { case 2
    show ?case
    proof (cases "chunk_frames E a = []")
      case True
      with 2 Cons(2) [of "wrote_chunk E a st"] show ?thesis by (simp add: wrote_chunk_cases)
    next
      case False
      with 2 have ab: "a = b" "filter (\<lambda>b. chunk_frames E b \<noteq> []) bs = rest" by simp_all
      have nf: "\<not> first_chunk (wrote_chunk E a st)"
        using False 2 by (simp add: wrote_chunk_cases)
      show ?thesis
      proof (cases "rest = []")
        case True
        with fold_appending(3) [OF nf, where bs = bs] False 2 ab show ?thesis
          by (simp add: wrote_chunk_cases batch_frame_def)
      next
        case nonempty: False
        with fold_appending(2) [OF nf, where bs = bs] False 2 ab show ?thesis
          by (simp add: wrote_chunk_cases batch_frame_def existing_def)
      qed
    qed }
qed

lemma data_lines_to_csv:
  "length (filter is_Data (to_csv df True)) = length (rows df)"
  "length (filter is_Data (to_csv df False)) = length (rows df)"
  by (simp_all add: to_csv_def comp_def)

lemma wrote_chunk_counted:
  assumes "counted st"
  shows "counted (wrote_chunk E b st)"
proof (cases "chunk_frames E b = []")
  case True
  with assms show ?thesis by (auto simp: wrote_chunk_cases(1) counted_def data_lines_def split: if_splits)
next
  case False
  show ?thesis
  proof (cases "first_chunk st")
    case True
    with assms False show ?thesis
      by (auto simp: wrote_chunk_cases(2) counted_def data_lines_def existing_def data_lines_to_csv split: if_splits)
  next
    case nf: False
    with assms False show ?thesis
      by (auto simp: wrote_chunk_cases(3) counted_def data_lines_def existing_def data_lines_to_csv split: if_splits)
  qed
qed

lemma fold_counted: "counted st \<Longrightarrow> counted (fold (wrote_chunk E) bs st)"
  by (induction bs arbitrary: st) (simp_all add: wrote_chunk_counted)

lemma fold_calls_first:
  "first_chunk st \<Longrightarrow> csv_calls st = [] \<Longrightarrow>
   first_chunk (fold (wrote_chunk E) bs st) = (csv_calls (fold (wrote_chunk E) bs st) = [])"
proof (induction bs arbitrary: st)
  case Nil then show ?case by simp
next
  case (Cons b bs)
  show ?case
  proof (cases "chunk_frames E b = []")
    case True
    with Cons.prems Cons.IH [of "wrote_chunk E b st"] show ?thesis
      by (simp add: wrote_chunk_cases(1))
  next
    case False
    have nf: "\<not> first_chunk (wrote_chunk E b st)"
      using False Cons.prems by (simp add: wrote_chunk_cases(2))
    have "csv_calls (wrote_chunk E b st) \<noteq> []"
      using False Cons.prems by (simp add: wrote_chunk_cases(2))
    then have "csv_calls (fold (wrote_chunk E) bs (wrote_chunk E b st)) \<noteq> []"
      using fold_appending(1) [OF nf, where bs = bs] by simp
    moreover have "\<not> first_chunk (fold (wrote_chunk E) bs (wrote_chunk E b st))"
      using nf by (simp add: fold_first)
    ultimately show ?thesis by simp
  qed
qed

lemma merge_counted:
  assumes "interim E = Directory"
  shows "csv_calls (final (merge E files out cs)) = [] \<or>
   data_lines (final (merge E files out cs)) = total_rows (final (merge E files out cs))"
proof -
  consider "files = []" | "files \<noteq> []" "cs = 0" | "files \<noteq> []" "cs \<noteq> 0" by blast
  then show ?thesis
  proof cases
    case 1 then show ?thesis by (simp add: merge_no_files start_state_def)
  next
    case 2 then show ?thesis by (simp add: merge_zero start_state_def)
  next
    case 3
    let ?st = "fold (wrote_chunk E) (batches files cs) (start_state files out cs)"
    have s: "counted (start_state files out cs)" by (simp add: counted_def start_state_def)
    from fold_counted [OF s] have c: "counted ?st" .
    have "first_chunk ?st = (csv_calls ?st = [])"
      by (rule fold_calls_first) (simp_all add: start_state_def)
    from assms have "interim E = Directory \<or> nonempty_batches E files cs = []" by simp
    with c \<open>first_chunk ?st = (csv_calls ?st = [])\<close> show ?thesis
      by (auto simp: merge_returns [OF 3] counted_def data_lines_def split: if_splits)
  qed
qed

text \<open>
  Claim C1, as amended. In a run of \<^verbatim>\<open>merge\<close> that finds the interim directory
  in place, the rows written to the interim table, which is also what the run
  counts in \<^verbatim>\<open>total_rows\<close>, are the sum over the page files it reads of the rows
  their list fields are due: the length of the list when it is a list of records,
  and none for a file that cannot be read, does not parse, has no list field, or
  whose list is empty or holds something that is no record after a first record;
  a list field of another shape is due the rows of the frame pandas builds from
  it, none if pandas raises. When every list field holds records or nothing this
  is the sum of the lengths of the list fields. With a positive chunk size the
  run reads every file found, each once, and when it has written at all the table
  holds as many data lines as it counted.
  No file makes the run raise: the only exception is the \<^verbatim>\<open>ValueError\<close> of
  \<^verbatim>\<open>range\<close> for a chunk size of zero, before any file is read.
\<close>

theorem merge_row_count:
  assumes "interim E = Directory"
  shows "total_rows (final (merge E files out chunk_size)) =
           sum_list (map (expected_rows E) (concat (batches files chunk_size)))
       \<and> rows_written (final (merge E files out chunk_size)) =
           total_rows (final (merge E files out chunk_size))
       \<and> (csv_calls (final (merge E files out chunk_size)) = [] \<or>
          data_lines (final (merge E files out chunk_size)) =
            total_rows (final (merge E files out chunk_size)))
       \<and> (list_all (lists_hold_records E) files \<longrightarrow>
            sum_list (map (expected_rows E) (concat (batches files chunk_size))) =
            sum_list (map (list_length E) (concat (batches files chunk_size))))
       \<and> (0 < chunk_size \<longrightarrow> concat (batches files chunk_size) = files)
       \<and> raised (merge E files out chunk_size) =
           (if files \<noteq> [] \<and> chunk_size = 0 then Some ValueError else None)"
proof -
  let ?read = "concat (batches files chunk_size)"
  have rows: "map (file_rows E) ?read = map (expected_rows E) ?read"
    by (simp add: file_rows_expected)
  have lens: "sum_list (map (expected_rows E) ?read) = sum_list (map (list_length E) ?read)"
    if "list_all (lists_hold_records E) files"
  proof -
    have "\<forall>f \<in> set ?read. lists_hold_records E f"
      using that batches_subset [of files chunk_size] unfolding list_all_iff by blast
    then have "map (expected_rows E) ?read = map (list_length E) ?read"
      by (intro map_cong refl expected_list_length) blast
    then show ?thesis by (rule arg_cong)
  qed
  have total: "total_rows (final (merge E files out chunk_size)) = sum_list (map (expected_rows E) ?read)"
    using merge_total(1) [OF assms, of files out chunk_size] by (simp only: rows)
  have written: "rows_written (final (merge E files out chunk_size)) =
                 total_rows (final (merge E files out chunk_size))"
    using merge_total [OF assms, of files out chunk_size] by simp
  have cover: "0 < chunk_size \<longrightarrow> ?read = files"
    by (simp add: batches_cover)
  from total written merge_counted [OF assms, of files out chunk_size] lens cover
    merge_raised [OF assms, of files out chunk_size]
  show ?thesis by blast
qed

text \<open>
  Claim C1 as stated fails on lists that hold more than records. The list of
  \<^verbatim>\<open>page_5.json\<close> holds a record and a number: the file parses and its list
  field has length two, pandas raises on it, the file is logged and skipped, and
  the run over it and \<^verbatim>\<open>page_0.json\<close> returns with two rows for list fields of
  total length four.
\<close>

theorem merge_skips_mixed_list:
  "parsed scenario ''page_5.json'' =
     Some (JObj [(''list'', JArr [JObj [(''a'', JInt 1)], JInt 5])])
   \<and> sum_list (map (list_length scenario) [''page_0.json'', ''page_5.json'']) = 4
   \<and> raised (merge scenario [''page_0.json'', ''page_5.json''] None 1000) = None
   \<and> total_rows (final (merge scenario [''page_0.json'', ''page_5.json''] None 1000)) = 2
   \<and> output_file (final (merge scenario [''page_0.json'', ''page_5.json''] None 1000)) =
       Some [Header [''id''], Data [Some (JStr ''1'')], Data [Some (JStr ''2'')]]"
  by code_simp

text \<open>
  Claim C4, as amended. When the interim directory is in place and a run has a
  non-empty batch, the run returns, the first such batch \<open>b\<close> makes the only
  \<^verbatim>\<open>to_csv\<close> call with a header, every later non-empty batch makes one call
  without a header, and the table is one header line, the columns of the frame of
  \<open>b\<close>, followed by data lines only. This holds for every chunk size and every
  number of batches.
\<close>

theorem merge_header_once:
  assumes "interim E = Directory" "nonempty_batches E files chunk_size = b # rest"
  shows "raised (merge E files out chunk_size) = None
       \<and> csv_calls (final (merge E files out chunk_size)) =
           (batch_frame E b, True) # map (\<lambda>b. (batch_frame E b, False)) rest
       \<and> output_file (final (merge E files out chunk_size)) =
           Some (Header (columns (batch_frame E b)) #
                 concat (map (\<lambda>b. to_csv (batch_frame E b) False) (b # rest)))
       \<and> list_all is_Data (concat (map (\<lambda>b. to_csv (batch_frame E b) False) (b # rest)))"
proof -
  from assms(2) have "batches files chunk_size \<noteq> []"
    by (auto simp: nonempty_batches_def)
  then have ne: "files \<noteq> []" "chunk_size \<noteq> 0"
    using batches_none [of files chunk_size] by auto
  have w: "interim E = Directory \<or> nonempty_batches E files chunk_size = []"
    using assms(1) by simp
  have f: "filter (\<lambda>b. chunk_frames E b \<noteq> []) (batches files chunk_size) = b # rest"
    using assms(2) by (simp add: nonempty_batches_def)
  have s: "first_chunk (start_state files out chunk_size)" "csv_calls (start_state files out chunk_size) = []"
    by (simp_all add: start_state_def)
  have "list_all is_Data (concat (map (\<lambda>b. to_csv (batch_frame E b) False) (b # rest)))"
    using to_csv_data by (auto simp: list_all_iff)
  then show ?thesis
    using fold_first_write [OF s(1) f] s(2)
    by (simp add: merge_returns [OF ne w] to_csv_header)
qed

text \<open>
  Claim C4 as stated fails when the interim directory is missing, which
  \<^verbatim>\<open>merge\<close> does not make: the run has a non-empty batch, the first
  \<^verbatim>\<open>to_csv\<close> raises \<^verbatim>\<open>OSError\<close>, which leaves the command, and no header
  line is written at all.
\<close>

theorem merge_writes_no_header_without_directory:
  "nonempty_batches no_interim [''page_0.json'', ''page_1.json''] 1 =
     [[''page_0.json''], [''page_1.json'']]
   \<and> raised (merge no_interim [''page_0.json'', ''page_1.json''] None 1) = Some OSError
   \<and> csv_calls (final (merge no_interim [''page_0.json'', ''page_1.json''] None 1)) = []
   \<and> output_file (final (merge no_interim [''page_0.json'', ''page_1.json''] None 1)) = None"
  by code_simp

text \<open>
  Claim C10. When files were found and every batch of the run ends with an empty
  \<^verbatim>\<open>chunk_dataframes\<close>, the run returns without raising, makes no \<^verbatim>\<open>to_csv\<close>
  call, leaves \<^verbatim>\<open>merged.csv\<close> as it found it (absent if it was absent), and
  its last log line reports zero rows. The batches exist when the chunk size is
  not zero.
\<close>

theorem merge_nothing_to_write:
  assumes "files \<noteq> []" "chunk_size \<noteq> 0" "nonempty_batches E files chunk_size = []"
  shows "raised (merge E files out chunk_size) = None
       \<and> csv_calls (final (merge E files out chunk_size)) = []
       \<and> output_file (final (merge E files out chunk_size)) = out
       \<and> total_rows (final (merge E files out chunk_size)) = 0
       \<and> last (log_of (final (merge E files out chunk_size))) = (SUCCESS, MergedSaved 0)"
proof -
  have f: "filter (\<lambda>b. chunk_frames E b \<noteq> []) (batches files chunk_size) = []"
    using assms(3) by (simp add: nonempty_batches_def)
  have w: "interim E = Directory \<or> nonempty_batches E files chunk_size = []"
    using assms(3) by simp
  show ?thesis
    using fold_nothing [OF f, of "start_state files out chunk_size"]
    by (simp add: merge_returns [OF assms(1,2) w]) (simp add: start_state_def)
qed

text \<open>
  Every batch is empty when each file found is skipped or has an empty list.
\<close>

lemma nothing_from_files:
  assumes "list_all (\<lambda>f. fst (process_file E f) = None) files"
  shows "nonempty_batches E files chunk_size = []"
proof -
  have "chunk_frames E b = []" if "b \<in> set (batches files chunk_size)" for b
  proof -
    have "set b \<subseteq> set files" using that batches_subset [of files chunk_size] by auto
    with assms have "\<forall>f \<in> set b. fst (process_file E f) = None" by (auto simp: list_all_iff)
    then show ?thesis
      unfolding chunk_frames_eq by (induction b) (simp_all add: List.map_filter_simps)
  qed
  then show ?thesis by (simp add: nonempty_batches_def filter_empty_conv)
qed

text \<open>
  Claim C3, run on the scenario with one file per batch. The second page has the
  field \<^verbatim>\<open>title\<close>, which the first has not. The header is that of the first
  batch alone, so \<^verbatim>\<open>title\<close> is no column of the table, and the row of the
  second page has two fields under a header of one.
\<close>

theorem merge_header_of_first_batch_only:
  \<open>output_file (final (merge scenario [''page_0.json'', ''page_1.json''] None 1)) =
     Some [Header [''id''],
           Data [Some (JStr ''1'')],
           Data [Some (JStr ''2'')],
           Data [Some (JStr ''3''), Some (JStr ''x'')]]\<close>
  by code_simp

text \<open>
  With both files in one batch the table has the union of the field names.
\<close>

lemma scenario_one_batch:
  \<open>output_file (final (merge scenario [''page_0.json'', ''page_1.json''] None 1000)) =
     Some [Header [''id'', ''title''],
           Data [Some (JStr ''1''), None],
           Data [Some (JStr ''2''), None],
           Data [Some (JStr ''3''), Some (JStr ''x'')]]\<close>
  by code_simp

text \<open>
  Claim C1 on the scenario: four files in batches of three, one without list field
  and one that does not parse, three rows.
\<close>

theorem merge_row_count_witness:
  "interim scenario = Directory
   \<and> list_all (lists_hold_records scenario) [''page_0.json'', ''page_2.json'', ''page_3.json'', ''page_1.json'']
   \<and> (0::int) < 3
   \<and> total_rows (final (merge scenario [''page_0.json'', ''page_2.json'', ''page_3.json'', ''page_1.json''] None 3)) = 3
   \<and> raised (merge scenario [''page_0.json'', ''page_2.json'', ''page_3.json'', ''page_1.json''] None 3) = None"
proof -
  let ?files = "[''page_0.json'', ''page_2.json'', ''page_3.json'', ''page_1.json'']"
  have d: "interim scenario = Directory"
    by (simp add: scenario_def)
  have h: "list_all (lists_hold_records scenario) ?files"
    by code_simp
  have s: "sum_list (map (list_length scenario) ?files) = 3"
    by code_simp
  note m = merge_row_count [OF d, of ?files None 3]
  from m have c: "concat (batches ?files 3) = ?files" by simp
  from m have t: "total_rows (final (merge scenario ?files None 3)) =
                  sum_list (map (expected_rows scenario) (concat (batches ?files 3)))"
    by (rule conjunct1)
  from m h have l: "sum_list (map (expected_rows scenario) (concat (batches ?files 3))) =
                    sum_list (map (list_length scenario) (concat (batches ?files 3)))"
    by blast
  from t l have "total_rows (final (merge scenario ?files None 3)) =
                 sum_list (map (list_length scenario) (concat (batches ?files 3)))"
    by (rule trans)
  then have "total_rows (final (merge scenario ?files None 3)) = 3"
    unfolding c s .
  moreover from m have "raised (merge scenario ?files None 3) = None" by simp
  ultimately show ?thesis
    using d h by simp
qed

text \<open>
  Claim C4 on the scenario: three batches of one file, the second one empty.
\<close>

theorem merge_header_once_witness:
  "interim scenario = Directory
   \<and> nonempty_batches scenario [''page_0.json'', ''page_2.json'', ''page_1.json''] 1 =
     [[''page_0.json''], [''page_1.json'']]
   \<and> map snd (csv_calls (final (merge scenario [''page_0.json'', ''page_2.json'', ''page_1.json''] None 1))) =
     [True, False]"
proof -
  have d: "interim scenario = Directory"
    by (simp add: scenario_def)
  have h: "nonempty_batches scenario [''page_0.json'', ''page_2.json'', ''page_1.json''] 1 =
     [[''page_0.json''], [''page_1.json'']]"
    by code_simp
  from merge_header_once [OF d h, of None] show ?thesis
    using d h by simp
qed

text \<open>
  Claim C10 on the scenario: three files that yield no frame, in batches of two.
\<close>

theorem merge_nothing_to_write_witness:
  "[''page_2.json'', ''page_3.json'', ''page_4.json''] \<noteq> [] \<and> (2::int) \<noteq> 0
   \<and> nonempty_batches scenario [''page_2.json'', ''page_3.json'', ''page_4.json''] 2 = []
   \<and> raised (merge scenario [''page_2.json'', ''page_3.json'', ''page_4.json''] None 2) = None
   \<and> output_file (final (merge scenario [''page_2.json'', ''page_3.json'', ''page_4.json''] None 2)) = None"
proof -
  have h: "nonempty_batches scenario [''page_2.json'', ''page_3.json'', ''page_4.json''] 2 = []"
    by code_simp
  have n: "[''page_2.json'', ''page_3.json'', ''page_4.json''] \<noteq> []" "(2::int) \<noteq> 0"
    by simp_all
  from merge_nothing_to_write [OF n h, of None] show ?thesis
    using h by simp
qed

section \<open>Properties of the pull stage\<close>

lemma of_char_digit: "d < 10 \<Longrightarrow> of_char (digit d) = (48 + d :: nat)"
  by (simp add: digit_def)

lemma digit_not_minus: "d < 10 \<Longrightarrow> digit d \<noteq> CHR ''-''"
proof
  assume "d < 10" "digit d = CHR ''-''"
  then have "(of_char (digit d) :: nat) = of_char CHR ''-''" by simp
  with \<open>d < 10\<close> show False by (simp add: of_char_digit)
qed

lemma digits_value_str_nat: "digits_value (str_nat n) = n"
proof (induction n rule: str_nat.induct)
  case (1 n)
  show ?case
  proof (cases "n < 10")
    case True
    then show ?thesis
      by (subst str_nat.simps) (simp add: digits_value_def of_char_digit)
  next
    case False
    with 1 have "digits_value (str_nat (n div 10)) = n div 10" by simp
    moreover have "n mod 10 < 10" by simp
    ultimately show ?thesis
      using False
      by (subst str_nat.simps) (simp add: digits_value_def of_char_digit)
  qed
qed

lemma str_nat_inj: "str_nat m = str_nat n \<Longrightarrow> m = n"
  by (metis digits_value_str_nat)

lemma str_nat_hd: "str_nat n \<noteq> [] \<and> hd (str_nat n) \<noteq> CHR ''-''"
proof (induction n rule: str_nat.induct)
  case (1 n)
  show ?case
  proof (cases "n < 10")
    case True
    then show ?thesis by (subst (1 2) str_nat.simps) (simp add: digit_not_minus)
  next
    case False
    with 1 show ?thesis by (subst (1 2) str_nat.simps) simp
  qed
qed

lemma str_int_inj: "str_int i = str_int j \<Longrightarrow> i = j"
proof -
  assume e: "str_int i = str_int j"
  have neg: False if "a < 0" "\<not> b < 0" "str_int a = str_int b" for a b
  proof -
    from that have "CHR ''-'' # str_nat (nat (- a)) = str_nat (nat b)" by (simp add: str_int_def)
    then have "hd (str_nat (nat b)) = CHR ''-''" by (metis list.sel(1))
    with str_nat_hd [of "nat b"] show False by simp
  qed
  show ?thesis
  proof (cases "i < 0"; cases "j < 0")
    assume "i < 0" "j < 0"
    with e have "nat (- i) = nat (- j)" by (simp add: str_int_def str_nat_inj)
    with \<open>i < 0\<close> \<open>j < 0\<close> show ?thesis by simp
  next
    assume "i < 0" "\<not> j < 0" with neg e show ?thesis by blast
  next
    assume "\<not> i < 0" "j < 0" with neg [of j i] e show ?thesis by simp
  next
    assume "\<not> i < 0" "\<not> j < 0"
    with e have "nat i = nat j" by (simp add: str_int_def str_nat_inj)
    with \<open>\<not> i < 0\<close> \<open>\<not> j < 0\<close> show ?thesis by simp
  qed
qed

lemma page_path_inj: "page_path i = page_path j \<Longrightarrow> i = j"
  by (simp add: page_path_def str_int_inj)

lemma page_path_eq [simp]: "page_path i = page_path j \<longleftrightarrow> i = j"
  using page_path_inj by blast

lemma range_upto: "map (\<lambda>k. s + int k) [0..<n] = [s..s + int n - 1]"
proof (induction n)
  case 0 show ?case by simp
next
  case (Suc n)
  have "[s..s + int (Suc n) - 1] = [s..s + int n - 1] @ [s + int n]"
    by (subst upto_rec2) (simp_all add: algebra_simps)
  with Suc show ?case by simp
qed

lemma py_range_step1: "py_range s e 1 = Inr [s..e - 1]"
proof (cases "s \<le> e")
  case True
  then have "s + int (nat (e - s)) - 1 = e - 1" by simp
  with range_upto [of s "nat (e - s)"] show ?thesis by (simp add: py_range_def)
next
  case False
  then show ?thesis by (simp add: py_range_def)
qed

lemma set_page_twice: "set_page (set_page ps i) j = set_page ps j"
  by (simp add: set_page_def)

lemma pull_page_skipped:
  "skipped force w i \<Longrightarrow>
   pull_page P force i w = Returned (w\<lparr>pull_log := pull_log w @ [(INFO, SkippingPage i)]\<rparr>)"
  by (simp add: pull_page_def skipped_def)

lemma pull_page_fetched:
  assumes "\<not> skipped force w i"
  shows "fetch_data P (length (requests w)) (set_page (FETCHER_BASE_PARAMS w) i) = Failure \<Longrightarrow>
           pull_page P force i w = Returned (asked P i w)"
    and "fetch_data P (length (requests w)) (set_page (FETCHER_BASE_PARAMS w) i) = Response r \<Longrightarrow>
         json_of r = Inl e \<Longrightarrow>
           pull_page P force i w =
             Raised e ((asked P i w)\<lparr>page_files := (page_files w)(page_path i \<mapsto> [])\<rparr>)"
    and "fetch_data P (length (requests w)) (set_page (FETCHER_BASE_PARAMS w) i) = Response r \<Longrightarrow>
         json_of r = Inr v \<Longrightarrow> dumps P v = Inl e \<Longrightarrow>
           pull_page P force i w =
             Raised e ((asked P i w)\<lparr>page_files := (page_files w)(page_path i \<mapsto> [])\<rparr>)"
    and "fetch_data P (length (requests w)) (set_page (FETCHER_BASE_PARAMS w) i) = Response r \<Longrightarrow>
         json_of r = Inr v \<Longrightarrow> dumps P v = Inr data \<Longrightarrow>
           pull_page P force i w =
             Returned ((asked P i w)
               \<lparr>page_files := (page_files w)(page_path i \<mapsto> data),
                writes := writes w @ [(page_path i, data)],
                pull_log := pull_log w @ [(SUCCESS, PageSaved i (page_path i))]\<rparr>)"
  using assms by (auto simp: pull_page_def skipped_def asked_def Let_def)

text \<open>What one turn of the loop does to the parts of the world, whatever the case.\<close>

lemma pull_page_frame:
  "raw_dir (final (pull_page P force i w)) = raw_dir w"
  "p \<noteq> page_path i \<Longrightarrow> page_files (final (pull_page P force i w)) p = page_files w p"
proof -
  show "raw_dir (final (pull_page P force i w)) = raw_dir w"
    by (simp add: pull_page_def Let_def split: fetch_result.splits sum.splits)
  show "p \<noteq> page_path i \<Longrightarrow> page_files (final (pull_page P force i w)) p = page_files w p"
    by (simp add: pull_page_def Let_def split: fetch_result.splits sum.splits)
qed

lemma pull_loop_step:
  "raised (pull_page P force i w) = None \<Longrightarrow>
     pull_loop P force (i # rest) w = pull_loop P force rest (final (pull_page P force i w))"
  "raised (pull_page P force i w) = Some e \<Longrightarrow>
     pull_loop P force (i # rest) w = Raised e (final (pull_page P force i w))"
  by (cases "pull_page P force i w"; simp)+

lemma pull_loop_frame:
  "raw_dir (final (pull_loop P force js w)) = raw_dir w"
  "p \<notin> page_path ` set js \<Longrightarrow> page_files (final (pull_loop P force js w)) p = page_files w p"
proof -
  show "raw_dir (final (pull_loop P force js w)) = raw_dir w"
  proof (induction js arbitrary: w)
    case Nil show ?case by simp
  next
    case (Cons i rest)
    show ?case
      by (cases "raised (pull_page P force i w)")
         (simp_all add: pull_loop_step Cons pull_page_frame del: pull_loop.simps)
  qed
  show "p \<notin> page_path ` set js \<Longrightarrow> page_files (final (pull_loop P force js w)) p = page_files w p"
  proof (induction js arbitrary: w)
    case Nil show ?case by simp
  next
    case (Cons i rest)
    then have p: "p \<noteq> page_path i" "p \<notin> page_path ` set rest" by auto
    show ?case
      by (cases "raised (pull_page P force i w)")
         (simp_all add: pull_loop_step Cons.IH [OF p(2)] pull_page_frame(2) [OF p(1)] del: pull_loop.simps)
  qed
qed

lemma saved_cong: "page_files w' (page_path (index c)) = page_files w (page_path (index c)) \<Longrightarrow>
  saved P w' c = saved P w c"
  by (simp add: saved_def split: fetch_result.splits)

lemma pull_page_call:
  obtains
    (quiet) "requests (final (pull_page P force i w)) = requests w"
      "FETCHER_BASE_PARAMS (final (pull_page P force i w)) = FETCHER_BASE_PARAMS w"
      "writes (final (pull_page P force i w)) = writes w"
      "raised (pull_page P force i w) = None"
  | (call) c where "requests (final (pull_page P force i w)) = requests w @ [c]"
      "index c = i" "sent c = set_page (FETCHER_BASE_PARAMS w) i"
      "FETCHER_BASE_PARAMS (final (pull_page P force i w)) = set_page (FETCHER_BASE_PARAMS w) i"
      "saved P (final (pull_page P force i w)) c"
      "writes (final (pull_page P force i w)) = writes w @ (case write_of P c of None \<Rightarrow> [] | Some x \<Rightarrow> [x])"
proof (cases "skipped force w i")
  case True
  then show ?thesis by (intro quiet) (simp_all add: pull_page_skipped)
next
  case False
  let ?ps = "set_page (FETCHER_BASE_PARAMS w) i"
  let ?res = "fetch_data P (length (requests w)) ?ps"
  show ?thesis
  proof (cases ?res)
    case Failure
    with pull_page_fetched(1) [OF False] show ?thesis
      by (intro call [of "Call i ?ps Failure"])
         (simp_all add: asked_def saved_def serialised_def payload_def write_of_def)
  next
    case (Response r)
    show ?thesis
    proof (cases "json_of r")
      case (Inl e)
      with pull_page_fetched(2) [OF False Response] Response show ?thesis
        by (intro call [of "Call i ?ps (Response r)"])
           (simp_all add: asked_def saved_def serialised_def payload_def write_of_def)
    next
      case (Inr v)
      show ?thesis
      proof (cases "dumps P v")
        case e: (Inl e)
        with pull_page_fetched(3) [OF False Response Inr] Response Inr show ?thesis
          by (intro call [of "Call i ?ps (Response r)"])
             (simp_all add: asked_def saved_def serialised_def payload_def write_of_def)
      next
        case d: (Inr data)
        with pull_page_fetched(4) [OF False Response Inr] Response Inr show ?thesis
          by (intro call [of "Call i ?ps (Response r)"])
             (simp_all add: asked_def saved_def serialised_def payload_def write_of_def)
      qed
    qed
  qed
qed

lemma pull_loop_calls_aux:
  assumes "distinct js" "final (pull_loop P force js w) = w'"
  shows "\<exists>new. requests w' = requests w @ new
     \<and> list_all (\<lambda>c. index c \<in> set js \<and> sent c = set_page (FETCHER_BASE_PARAMS w) (index c)
                    \<and> saved P w' c) new
     \<and> FETCHER_BASE_PARAMS w' =
         (if new = [] then FETCHER_BASE_PARAMS w
          else set_page (FETCHER_BASE_PARAMS w) (index (last new)))
     \<and> writes w' = writes w @ List.map_filter (write_of P) new"
  using assms
proof (induction js arbitrary: w)
  case Nil
  then have "w' = w" by simp
  then show ?case by (simp add: List.map_filter_simps)
next
  case (Cons i rest)
  define w1 where "w1 = final (pull_page P force i w)"
  from Cons.prems have d: "distinct rest" "i \<notin> set rest" by simp_all
  note page = pull_page_call [of P force i w, folded w1_def, case_names quiet call]
  show ?case
  proof (cases "raised (pull_page P force i w)")
    case (Some e)
    with Cons.prems(2) have fin: "w' = w1"
      by (simp add: pull_loop_step w1_def del: pull_loop.simps)
    show ?thesis
    proof (cases rule: page)
      case quiet
      with Some show ?thesis by simp
    next
      case (call c)
      have "list_all (\<lambda>c. index c \<in> set (i # rest) \<and>
               sent c = set_page (FETCHER_BASE_PARAMS w) (index c) \<and> saved P w' c) [c]"
        using call(2,3,5) by (simp add: fin)
      moreover have "writes w' = writes w @ List.map_filter (write_of P) [c]"
        using call(6) by (simp add: fin List.map_filter_simps split: option.splits)
      moreover have "requests w' = requests w @ [c]" using call(1) by (simp add: fin)
      moreover have "FETCHER_BASE_PARAMS w' = set_page (FETCHER_BASE_PARAMS w) (index (last [c]))"
        using call(2,4) by (simp add: fin)
      ultimately show ?thesis by (intro exI [of _ "[c]"]) simp
    qed
  next
    case None
    with Cons.prems(2) have fin: "final (pull_loop P force rest w1) = w'"
      by (simp add: pull_loop_step w1_def del: pull_loop.simps)
    from Cons.IH [OF d(1) fin] obtain new1 where
      r: "requests w' = requests w1 @ new1" and
      a: "list_all (\<lambda>c. index c \<in> set rest \<and> sent c = set_page (FETCHER_BASE_PARAMS w1) (index c)
                    \<and> saved P w' c) new1" and
      f: "FETCHER_BASE_PARAMS w' =
           (if new1 = [] then FETCHER_BASE_PARAMS w1
            else set_page (FETCHER_BASE_PARAMS w1) (index (last new1)))" and
      wr: "writes w' = writes w1 @ List.map_filter (write_of P) new1"
      by blast
    show ?thesis
    proof (cases rule: page)
      case quiet
      have "list_all (\<lambda>c. index c \<in> set (i # rest) \<and>
               sent c = set_page (FETCHER_BASE_PARAMS w) (index c) \<and> saved P w' c) new1"
        using a unfolding list_all_iff quiet(2) by simp
      moreover have "requests w' = requests w @ new1" using r quiet(1) by simp
      moreover have "FETCHER_BASE_PARAMS w' =
         (if new1 = [] then FETCHER_BASE_PARAMS w
          else set_page (FETCHER_BASE_PARAMS w) (index (last new1)))"
        using f quiet(2) by simp
      moreover have "writes w' = writes w @ List.map_filter (write_of P) new1"
        using wr quiet(3) by simp
      ultimately show ?thesis by (intro exI [of _ new1]) simp
    next
      case (call c)
      have "page_path i \<notin> page_path ` set rest" using d(2) by auto
      then have "page_files (final (pull_loop P force rest w1)) (page_path i) = page_files w1 (page_path i)"
        by (rule pull_loop_frame(2))
      then have "page_files w' (page_path (index c)) = page_files w1 (page_path (index c))"
        by (simp only: fin call(2))
      then have "saved P w' c = saved P w1 c" by (rule saved_cong)
      with call(5) have s: "saved P w' c" by blast
      have a': "list_all (\<lambda>c. index c \<in> set (i # rest) \<and>
                   sent c = set_page (FETCHER_BASE_PARAMS w) (index c) \<and> saved P w' c) (c # new1)"
        using a s call(2,3) unfolding list_all_iff call(4) set_page_twice by simp
      have f': "FETCHER_BASE_PARAMS w' =
           set_page (FETCHER_BASE_PARAMS w) (index (last (c # new1)))"
        using f unfolding call(4) set_page_twice by (simp add: call(2))
      have wr': "writes w' = writes w @ List.map_filter (write_of P) (c # new1)"
        using wr unfolding call(6) by (simp add: List.map_filter_simps split: option.splits)
      have r': "requests w' = requests w @ c # new1" using r unfolding call(1) by simp
      show ?thesis
        using r' a' f' wr' by (intro exI [of _ "c # new1"]) simp
    qed
  qed
qed

lemma pull_loop_calls:
  assumes "distinct js"
  shows "\<exists>new. requests (final (pull_loop P force js w)) = requests w @ new
     \<and> list_all (\<lambda>c. index c \<in> set js \<and> sent c = set_page (FETCHER_BASE_PARAMS w) (index c)
                    \<and> saved P (final (pull_loop P force js w)) c) new
     \<and> FETCHER_BASE_PARAMS (final (pull_loop P force js w)) =
         (if new = [] then FETCHER_BASE_PARAMS w
          else set_page (FETCHER_BASE_PARAMS w) (index (last new)))
     \<and> writes (final (pull_loop P force js w)) = writes w @ List.map_filter (write_of P) new"
  using pull_loop_calls_aux [OF assms refl] .

lemma new_calls_eq: "requests w' = requests w @ new \<Longrightarrow> new_calls w w' = new"
  by (simp add: new_calls_def)


lemma pull_page_turn:
  obtains
    (skip) "skipped force w i"
      "pull_page P force i w = Returned (w\<lparr>pull_log := pull_log w @ [(INFO, SkippingPage i)]\<rparr>)"
  | (fetch) c where "\<not> skipped force w i"
      "requests (final (pull_page P force i w)) = requests w @ [c]" "index c = i"
proof (cases "skipped force w i")
  case True
  then show ?thesis by (intro skip) (simp_all add: pull_page_skipped)
next
  case False
  then show ?thesis
    by (intro fetch [of "Call i (set_page (FETCHER_BASE_PARAMS w) i)
          (fetch_data P (length (requests w)) (set_page (FETCHER_BASE_PARAMS w) i))"])
       (auto simp: pull_page_def skipped_def Let_def split: fetch_result.splits sum.splits)
qed

lemma to_fetch_frame:
  assumes "\<forall>j \<in> set js. page_files w1 (page_path j) = page_files w (page_path j)"
  shows "to_fetch force w1 js = to_fetch force w js"
  unfolding to_fetch_def using assms by (intro filter_cong refl) (simp add: skipped_def)

lemma pull_loop_fetched_aux:
  assumes "distinct js" "pull_loop P force js w = Returned w'"
  shows "map index (new_calls w w') = to_fetch force w js"
  using assms
proof (induction js arbitrary: w)
  case Nil
  then show ?case by (simp add: new_calls_def to_fetch_def)
next
  case (Cons i rest)
  define w1 where "w1 = final (pull_page P force i w)"
  from Cons.prems have d: "distinct rest" "i \<notin> set rest" by simp_all
  have nr: "raised (pull_page P force i w) = None"
  proof (cases "raised (pull_page P force i w)")
    case (Some e)
    from pull_loop_step(2) [OF Some, of rest] Cons.prems(2) show ?thesis by simp
  qed simp
  with Cons.prems(2) have loop: "pull_loop P force rest w1 = Returned w'"
    by (simp add: pull_loop_step w1_def del: pull_loop.simps)
  from pull_loop_calls [OF d(1), of P force w1] obtain new1
    where r: "requests w' = requests w1 @ new1" by (auto simp: loop)
  have "\<forall>j \<in> set rest. page_files w1 (page_path j) = page_files w (page_path j)"
    using d(2) unfolding w1_def by (auto intro!: pull_page_frame(2))
  then have tf: "to_fetch force w1 rest = to_fetch force w rest" by (rule to_fetch_frame)
  have ih: "map index new1 = to_fetch force w rest"
    using Cons.IH [OF d(1) loop] new_calls_eq [OF r] tf by simp
  show ?case
  proof (cases rule: pull_page_turn [of force w i P])
    case skip
    then have "requests w1 = requests w" by (simp add: w1_def)
    with r have "new_calls w w' = new1" by (simp add: new_calls_eq)
    with ih skip(1) show ?thesis by (simp add: to_fetch_def)
  next
    case (fetch c)
    with r have "new_calls w w' = c # new1" by (simp add: new_calls_eq w1_def)
    with ih fetch(1,3) show ?thesis by (simp add: to_fetch_def)
  qed
qed

lemma pull_page_keeps:
  "page_files w p \<noteq> None \<Longrightarrow> page_files (final (pull_page P force i w)) p \<noteq> None"
  by (simp add: pull_page_def Let_def split: fetch_result.splits sum.splits)

lemma pull_loop_keeps:
  "page_files w p \<noteq> None \<Longrightarrow> page_files (final (pull_loop P force js w)) p \<noteq> None"
proof (induction js arbitrary: w)
  case Nil then show ?case by simp
next
  case (Cons i rest)
  from pull_page_keeps [OF Cons.prems, of P force i]
  have k: "page_files (final (pull_page P force i w)) p \<noteq> None" .
  show ?case
  proof (cases "raised (pull_page P force i w)")
    case None
    with Cons.IH [OF k] show ?thesis by (simp add: pull_loop_step del: pull_loop.simps)
  next
    case (Some e)
    with k show ?thesis by (simp add: pull_loop_step del: pull_loop.simps)
  qed
qed

lemma skipped_log: "skipped force (w\<lparr>pull_log := l\<rparr>) = skipped force w"
  by (rule ext) (simp add: skipped_def)

lemma pull_loop_all_skipped:
  "list_all (skipped force w) js \<Longrightarrow>
   pull_loop P force js w = Returned (w\<lparr>pull_log := pull_log w @ map (\<lambda>i. (INFO, SkippingPage i)) js\<rparr>)"
proof (induction js arbitrary: w)
  case Nil show ?case by simp
next
  case (Cons i rest)
  then have s: "skipped force w i" "list_all (skipped force w) rest" by simp_all
  let ?w1 = "w\<lparr>pull_log := pull_log w @ [(INFO, SkippingPage i)]\<rparr>"
  have "list_all (skipped force ?w1) rest" using s(2) by (simp add: skipped_log)
  from Cons.IH [OF this] show ?case by (simp add: pull_page_skipped [OF s(1)])
qed

lemma pull_pages_loop:
  "pull_pages P s e force w =
     pull_loop P force [s..e - 1] (w\<lparr>pull_log := pull_log w @ [(INFO, TotalPages (e - s))]\<rparr>)"
  by (simp add: pull_pages_def py_range_step1 Let_def)

lemma pull_cases:
  obtains
    (blocked) "raw_dir w = NotADirectory"
      "pull P s end_page force w =
         Raised FileExistsError (w\<lparr>pull_log := pull_log w @ [(INFO, RetrievingData)]\<rparr>)"
  | (refused) e where "raw_dir w \<noteq> NotADirectory" "end_page = Some e" "e \<le> s"
      "pull P s end_page force w =
         Returned (w\<lparr>raw_dir := Directory,
                     pull_log := pull_log w @ [(INFO, RetrievingData), (ERROR, EndPageNotGreater)]\<rparr>)"
  | (loop) "raw_dir w \<noteq> NotADirectory" "end_page = None \<or> s < last_page P s end_page w"
      "pull P s end_page force w =
         pull_loop P force [s..last_page P s end_page w - 1] (entered s (last_page P s end_page w) w)"
proof (cases "raw_dir w = NotADirectory")
  case True
  then show ?thesis by (intro blocked) (simp_all add: pull_def)
next
  case False
  then have m: "mkdir (raw_dir w) = Inr Directory" by (cases "raw_dir w") simp_all
  show ?thesis
  proof (cases end_page)
    case None
    with False m show ?thesis
      by (intro loop) (simp_all add: pull_def pull_pages_loop last_page_def entered_def)
  next
    case (Some e)
    show ?thesis
    proof (cases "e \<le> s")
      case True
      with False m Some show ?thesis by (intro refused [of e]) (simp_all add: pull_def)
    next
      case le: False
      with False m Some show ?thesis
        by (intro loop) (simp_all add: pull_def pull_pages_loop last_page_def entered_def)
    qed
  qed
qed

lemma entered_simps:
  "requests (entered s e w) = requests w"
  "FETCHER_BASE_PARAMS (entered s e w) = FETCHER_BASE_PARAMS w"
  "writes (entered s e w) = writes w"
  "page_files (entered s e w) = page_files w"
  "raw_dir (entered s e w) = Directory"
  "slept (entered s e w) = slept w"
  by (simp_all add: entered_def)

lemma to_fetch_entered: "to_fetch force (entered s e w) js = to_fetch force w js"
  by (rule to_fetch_frame) (simp add: entered_simps)

text \<open>
  Claim C9, as amended. Every call of \<^verbatim>\<open>fetch_data\<close> a run makes is passed the
  module-level dict \<^verbatim>\<open>FETCHER_BASE_PARAMS\<close> as the run found it, with only its
  \<^verbatim>\<open>page\<close> entry set to the index of the call. When the run is over (returned
  or raised) the module-level dict is the one passed to the last call: it carries
  the page entry of the last index fetched, which an index skipped after it does
  not change, and it is untouched when no index was fetched. In a run that
  returns, the indices fetched are those of the range that were not skipped, in
  order.
\<close>

theorem pull_shares_params:
  "requests (final (pull P s end_page force w)) =
     requests w @ new_calls w (final (pull P s end_page force w))
   \<and> list_all (\<lambda>c. sent c = set_page (FETCHER_BASE_PARAMS w) (index c))
        (new_calls w (final (pull P s end_page force w)))
   \<and> FETCHER_BASE_PARAMS (final (pull P s end_page force w)) =
       (if new_calls w (final (pull P s end_page force w)) = [] then FETCHER_BASE_PARAMS w
        else set_page (FETCHER_BASE_PARAMS w)
               (index (last (new_calls w (final (pull P s end_page force w))))))
   \<and> (raised (pull P s end_page force w) = None \<longrightarrow>
        map index (new_calls w (final (pull P s end_page force w))) =
          to_fetch force w [s..last_page P s end_page w - 1])"
proof (cases rule: pull_cases [of w P s end_page force])
  case blocked
  then show ?thesis by (simp add: new_calls_def)
next
  case (refused e)
  then show ?thesis by (simp add: new_calls_def last_page_def to_fetch_def)
next
  case loop
  let ?e = "last_page P s end_page w"
  let ?w' = "final (pull P s end_page force w)"
  have fin: "?w' = final (pull_loop P force [s..?e - 1] (entered s ?e w))"
    by (simp only: loop(3))
  from pull_loop_calls [of "[s..?e - 1]" P force "entered s ?e w", folded fin]
  obtain new where
    r: "requests ?w' = requests w @ new" and
    a: "list_all (\<lambda>c. index c \<in> set [s..?e - 1] \<and> sent c = set_page (FETCHER_BASE_PARAMS w) (index c)
                    \<and> saved P ?w' c) new" and
    f: "FETCHER_BASE_PARAMS ?w' =
         (if new = [] then FETCHER_BASE_PARAMS w
          else set_page (FETCHER_BASE_PARAMS w) (index (last new)))"
    unfolding entered_simps by auto
  have n: "new_calls w ?w' = new" using r by (rule new_calls_eq)
  have a': "list_all (\<lambda>c. sent c = set_page (FETCHER_BASE_PARAMS w) (index c)) new"
    using a unfolding list_all_iff by blast
  have "map index new = to_fetch force w [s..?e - 1]"
    if "raised (pull P s end_page force w) = None"
  proof -
    from that obtain w' where ret: "pull_loop P force [s..?e - 1] (entered s ?e w) = Returned w'"
      unfolding loop(3) by (cases "pull_loop P force [s..?e - 1] (entered s ?e w)") simp_all
    then have "w' = ?w'" by (simp add: fin)
    with pull_loop_fetched_aux [OF _ ret] have
      "map index (new_calls (entered s ?e w) ?w') = to_fetch force (entered s ?e w) [s..?e - 1]"
      by simp
    then show ?thesis
      using n by (simp add: to_fetch_entered new_calls_def entered_simps)
  qed
  then show ?thesis
    unfolding n using r a' f by blast
qed


text \<open>
  Claim C8, as amended. With an end page given that does not exceed the start
  page, \<^verbatim>\<open>pull\<close> returns after logging the error, with no fetch, no file
  written, no sleep and the request parameters untouched; what it has done before
  looking at the range is to make the raw directory. When that path is taken by
  something else, \<^verbatim>\<open>mkdir\<close> raises and the error is not reported.
\<close>

theorem pull_refuses_bad_range:
  assumes "e \<le> s"
  shows "pull P s (Some e) force w =
     (if raw_dir w = NotADirectory then
        Raised FileExistsError (w\<lparr>pull_log := pull_log w @ [(INFO, RetrievingData)]\<rparr>)
      else
        Returned (w\<lparr>raw_dir := Directory,
                    pull_log := pull_log w @ [(INFO, RetrievingData), (ERROR, EndPageNotGreater)]\<rparr>))"
proof (cases rule: pull_cases [of w P s "Some e" force])
  case blocked
  then show ?thesis by simp
next
  case (refused e')
  then show ?thesis by simp
next
  case loop
  with assms show ?thesis by (simp add: last_page_def)
qed

lemma pull_page_succeeds:
  assumes "stores P" "\<not> skipped force w i"
  shows "\<exists>w1. pull_page P force i w = Returned w1
     \<and> page_files w1 = (page_files w)(page_path i \<mapsto> snd (last (writes w1)))
     \<and> map fst (writes w1) = map fst (writes w) @ [page_path i]"
proof -
  let ?res = "fetch_data P (length (requests w)) (set_page (FETCHER_BASE_PARAMS w) i)"
  from assms(1) have "serialised P ?res \<noteq> None" by (simp add: stores_def)
  then obtain r v data where "?res = Response r" "json_of r = Inr v" "dumps P v = Inr data"
    by (auto simp: serialised_def payload_def split: fetch_result.splits sum.splits)
  from pull_page_fetched(4) [OF assms(2) this] show ?thesis
    by (simp add: asked_def)
qed

lemma pull_loop_succeeds:
  assumes "stores P" "distinct js"
  shows "\<exists>w'. pull_loop P force js w = Returned w'
     \<and> map fst (writes w') = map fst (writes w) @ map page_path (to_fetch force w js)
     \<and> list_all (\<lambda>i. page_files w' (page_path i) \<noteq> None) js"
  using assms(2)
proof (induction js arbitrary: w)
  case Nil
  show ?case by (simp add: to_fetch_def)
next
  case (Cons i rest)
  from Cons.prems have d: "distinct rest" "i \<notin> set rest" by simp_all
  have step: "\<exists>w1. pull_page P force i w = Returned w1
     \<and> page_files w1 (page_path i) \<noteq> None
     \<and> map fst (writes w1) = map fst (writes w) @ map page_path (to_fetch force w [i])"
  proof (cases "skipped force w i")
    case True
    then show ?thesis
      by (simp add: pull_page_skipped to_fetch_def) (simp add: skipped_def)
  next
    case False
    with pull_page_succeeds [OF assms(1) False] show ?thesis
      by (auto simp: to_fetch_def)
  qed
  then obtain w1 where w1: "pull_page P force i w = Returned w1"
    "page_files w1 (page_path i) \<noteq> None"
    "map fst (writes w1) = map fst (writes w) @ map page_path (to_fetch force w [i])"
    by blast
  from Cons.IH [OF d(1), of w1] obtain w' where w':
    "pull_loop P force rest w1 = Returned w'"
    "map fst (writes w') = map fst (writes w1) @ map page_path (to_fetch force w1 rest)"
    "list_all (\<lambda>i. page_files w' (page_path i) \<noteq> None) rest"
    by blast
  have "page_files w1 (page_path j) = page_files w (page_path j)" if "j \<in> set rest" for j
  proof -
    from that d(2) have "page_path j \<noteq> page_path i" by auto
    from pull_page_frame(2) [OF this, of P force w] show ?thesis by (simp add: w1(1))
  qed
  then have "\<forall>j \<in> set rest. page_files w1 (page_path j) = page_files w (page_path j)" by blast
  then have tf: "to_fetch force w1 rest = to_fetch force w rest" by (rule to_fetch_frame)
  have k: "page_files w' (page_path i) \<noteq> None"
    using pull_loop_keeps [OF w1(2), of P force rest] by (simp add: w'(1))
  have "to_fetch force w (i # rest) = to_fetch force w [i] @ to_fetch force w rest"
    by (simp add: to_fetch_def)
  then have "map fst (writes w') = map fst (writes w) @ map page_path (to_fetch force w (i # rest))"
    using w'(2) w1(3) tf by simp
  with w'(1,3) k w1(1) show ?case by simp
qed

text \<open>
  Claim C2, as amended. Let the range be valid, the raw directory be there or
  creatable, and every fetch return a response whose body decodes to a document
  that \<^verbatim>\<open>orjson.dumps\<close> serialises. A run then returns, every index of the
  range has its page file, the files of the directory are those it had and those
  of the range, two indices never share a file, and the run writes once to the
  file of each index it did not skip. A second run over the range without
  \<^verbatim>\<open>force\<close> returns, writes nothing, fetches nothing and leaves every file as
  it was.
\<close>

theorem pull_idempotent:
  assumes "s < e" "raw_dir w \<noteq> NotADirectory" "stores P"
  shows "raised (pull P s (Some e) force w) = None
   \<and> list_all (\<lambda>i. page_files (final (pull P s (Some e) force w)) (page_path i) \<noteq> None) [s..e - 1]
   \<and> dom (page_files (final (pull P s (Some e) force w))) = dom (page_files w) \<union> page_path ` {s..<e}
   \<and> inj page_path
   \<and> map fst (new_writes w (final (pull P s (Some e) force w))) =
       map page_path (to_fetch force w [s..e - 1])
   \<and> raised (pull P s (Some e) False (final (pull P s (Some e) force w))) = None
   \<and> new_writes (final (pull P s (Some e) force w))
        (final (pull P s (Some e) False (final (pull P s (Some e) force w)))) = []
   \<and> new_calls (final (pull P s (Some e) force w))
        (final (pull P s (Some e) False (final (pull P s (Some e) force w)))) = []
   \<and> page_files (final (pull P s (Some e) False (final (pull P s (Some e) force w)))) =
       page_files (final (pull P s (Some e) force w))"
proof -
  let ?js = "[s..e - 1]"
  have run: "pull P s (Some e) f u = pull_loop P f ?js (entered s e u)"
    if "raw_dir u \<noteq> NotADirectory" for f u
    using that assms(1)
    by (cases rule: pull_cases [of u P s "Some e" f]) (simp_all add: last_page_def)
  from pull_loop_succeeds [OF assms(3), of ?js force "entered s e w"] obtain w1 where w1:
    "pull_loop P force ?js (entered s e w) = Returned w1"
    "map fst (writes w1) = map fst (writes w) @ map page_path (to_fetch force w ?js)"
    "list_all (\<lambda>i. page_files w1 (page_path i) \<noteq> None) ?js"
    by (auto simp: entered_simps to_fetch_entered)
  have first: "pull P s (Some e) force w = Returned w1"
    by (simp add: run [OF assms(2)] w1(1))
  have dir: "raw_dir w1 = Directory"
    using pull_loop_frame(1) [of P force ?js "entered s e w"] by (simp add: w1(1) entered_simps)
  have "page_files w1 p = page_files w p" if "p \<notin> page_path ` set ?js" for p
    using pull_loop_frame(2) [OF that, of P force "entered s e w"] by (simp add: w1(1) entered_simps)
  moreover have "page_files w1 p \<noteq> None" if "page_files w p \<noteq> None" for p
    using pull_loop_keeps [of "entered s e w" p P force ?js] that by (simp add: w1(1) entered_simps)
  ultimately have dom: "dom (page_files w1) = dom (page_files w) \<union> page_path ` {s..<e}"
    using w1(3) unfolding list_all_iff by (auto simp: dom_def) force+
  have nw: "map fst (new_writes w w1) = map page_path (to_fetch force w ?js)"
    using w1(2) by (simp add: new_writes_def drop_map [symmetric])
  have "list_all (skipped False (entered s e w1)) ?js"
    using w1(3) by (simp add: list_all_iff skipped_def entered_simps)
  from pull_loop_all_skipped [OF this, of P]
  have second: "pull P s (Some e) False w1 =
      Returned ((entered s e w1)\<lparr>pull_log := pull_log (entered s e w1) @ map (\<lambda>i. (INFO, SkippingPage i)) ?js\<rparr>)"
    using dir by (simp add: run)
  have inj: "inj page_path" by (simp add: inj_def)
  have fin: "final (pull P s (Some e) force w) = w1" by (simp add: first)
  show ?thesis
    unfolding fin second
    using w1(3) dom nw inj by (simp add: first new_writes_def new_calls_def entered_simps)
qed

text \<open>
  Claim C2 as stated fails on the big source: every fetch succeeds, the body
  decodes, \<^verbatim>\<open>orjson.dumps\<close> raises on the number, and the run over pages 0 and
  1 ends at page 0 with an exception, an empty file for page 0 and no file for
  page 1.
\<close>

theorem pull_stops_at_unserialisable_page:
  "succeeds big_source
   \<and> raised (pull big_source 0 (Some 2) False fresh_world) = Some TypeError
   \<and> map answer (requests (final (pull big_source 0 (Some 2) False fresh_world))) = [Response big_page]
   \<and> page_files (final (pull big_source 0 (Some 2) False fresh_world)) ''page_0.json'' = Some []
   \<and> page_files (final (pull big_source 0 (Some 2) False fresh_world)) ''page_1.json'' = None
   \<and> writes (final (pull big_source 0 (Some 2) False fresh_world)) = []"
proof -
  have "succeeds big_source"
    by (simp add: succeeds_def big_source_def steady_source_def payload_def big_page_def)
  moreover have "raised (pull big_source 0 (Some 2) False fresh_world) = Some TypeError
   \<and> map answer (requests (final (pull big_source 0 (Some 2) False fresh_world))) = [Response big_page]
   \<and> page_files (final (pull big_source 0 (Some 2) False fresh_world)) ''page_0.json'' = Some []
   \<and> page_files (final (pull big_source 0 (Some 2) False fresh_world)) ''page_1.json'' = None
   \<and> writes (final (pull big_source 0 (Some 2) False fresh_world)) = []"
    by code_simp
  ultimately show ?thesis by (rule conjI)
qed

lemma steady_stores: "stores steady_source"
  by (simp add: stores_def serialised_def steady_source_def payload_def empty_page_def orjson_dumps_def)

text \<open>
  Claim C2, as amended, on the steady source: pages 0, 1 and 2 into a fresh world.
\<close>

theorem pull_idempotent_witness:
  "(0::int) < 3 \<and> raw_dir fresh_world \<noteq> NotADirectory \<and> stores steady_source
   \<and> dom (page_files (final (pull steady_source 0 (Some 3) False fresh_world))) = page_path ` {0..<3}
   \<and> new_writes (final (pull steady_source 0 (Some 3) False fresh_world))
        (final (pull steady_source 0 (Some 3) False (final (pull steady_source 0 (Some 3) False fresh_world)))) = []"
proof -
  have h: "(0::int) < 3" "raw_dir fresh_world \<noteq> NotADirectory"
    by (simp_all add: fresh_world_def)
  from pull_idempotent [OF h steady_stores, of False] show ?thesis
    using h steady_stores by (simp add: fresh_world_def)
qed



text \<open>
  Claim C8 as stated fails: the run with the range from 3 to 3 leaves a raw
  directory where there was none.
\<close>

theorem pull_bad_range_makes_directory:
  "raw_dir fresh_world = Absent
   \<and> raw_dir (final (pull steady_source 3 (Some 3) False fresh_world)) = Directory"
  by code_simp

text \<open>
  Claim C8, as amended, on the same run.
\<close>

theorem pull_refuses_bad_range_witness:
  "(3::int) \<le> 3
   \<and> pull steady_source 3 (Some 3) False fresh_world =
       Returned (fresh_world\<lparr>raw_dir := Directory,
                   pull_log := [(INFO, RetrievingData), (ERROR, EndPageNotGreater)]\<rparr>)"
proof -
  have h: "(3::int) \<le> 3" by simp
  from pull_refuses_bad_range [OF h, of steady_source False fresh_world] show ?thesis
    by (simp add: fresh_world_def)
qed

text \<open>
  Claim C9 as stated fails when the last index of the range is skipped: in the
  resumed world the run over pages 0, 1 and 2 fetches pages 0 and 1 and skips
  page 2, the last index it processes, and leaves the dict with the page entry of
  index 1.
\<close>

theorem pull_skip_keeps_page_entry:
  "raised (pull steady_source 0 (Some 3) False resumed_world) = None
   \<and> map index (requests (final (pull steady_source 0 (Some 3) False resumed_world))) = [0, 1]
   \<and> last (pull_log (final (pull steady_source 0 (Some 3) False resumed_world))) = (INFO, SkippingPage 2)
   \<and> FETCHER_BASE_PARAMS (final (pull steady_source 0 (Some 3) False resumed_world)) ''page'' = Some ''1''"
  by code_simp

text \<open>
  Claim C9, as amended, on the steady source: after pages 0, 1 and 2 the
  module-level dict has the page entry of index 2, which it had not before.
\<close>

theorem pull_shares_params_witness:
  "raised (pull steady_source 0 (Some 3) False fresh_world) = None
   \<and> FETCHER_BASE_PARAMS fresh_world ''page'' = None
   \<and> FETCHER_BASE_PARAMS (final (pull steady_source 0 (Some 3) False fresh_world)) ''page'' = Some ''2''"
proof -
  let ?new = "new_calls fresh_world (final (pull steady_source 0 (Some 3) False fresh_world))"
  have r: "raised (pull steady_source 0 (Some 3) False fresh_world) = None"
    by code_simp
  have t: "to_fetch False fresh_world [0..last_page steady_source 0 (Some 3) fresh_world - 1] = [0, 1, 2]"
    by code_simp
  from pull_shares_params [of steady_source 0 "Some 3" False fresh_world] r t
  have m: "map index ?new = [0, 1, 2]"
    and f: "FETCHER_BASE_PARAMS (final (pull steady_source 0 (Some 3) False fresh_world)) =
       (if ?new = [] then FETCHER_BASE_PARAMS fresh_world
        else set_page (FETCHER_BASE_PARAMS fresh_world) (index (last ?new)))"
    by simp_all
  from m have ne: "?new \<noteq> []" by auto
  then have "index (last ?new) = last (map index ?new)" by (simp add: last_map)
  with m have "index (last ?new) = 2" by simp
  moreover have "str_int 2 = ''2''" by code_simp
  moreover have "FETCHER_BASE_PARAMS fresh_world ''page'' = None" by code_simp
  ultimately show ?thesis using r f ne by (simp add: set_page_def)
qed

section \<open>Properties of the convert stage\<close>

lemma apply_col_names: "map fst (apply_col f c t) = map fst t"
  by (induction t) (auto simp: apply_col_def)

lemma texts_in_apply:
  assumes "texts_in S t" "\<And>x. is_Text (f x)"
  shows "texts_in (insert c S) (apply_col f c t)"
  using assms by (auto simp: texts_in_def apply_col_def list_all_iff split: if_splits)

lemma is_Text_coercions: "is_Text (as_str x)" "is_Text (str_unless_none x)" "is_Text (fill x)"
  by (simp_all add: as_str_def str_unless_none_def fill_def)

lemma coerce_col_table:
  "fst (coerce_col P c (t, lg)) = apply_col as_str c t \<or>
   fst (coerce_col P c (t, lg)) = apply_col str_unless_none c t"
  by (simp add: coerce_col_def split: option.splits)

lemma coerce_col_step:
  assumes "texts_in S (fst acc)"
  shows "texts_in (insert c S) (fst (coerce_col P c acc))"
    and "map fst (fst (coerce_col P c acc)) = map fst (fst acc)"
proof -
  obtain t lg where acc: "acc = (t, lg)" by (cases acc)
  from coerce_col_table [of P c t lg] assms
  show "texts_in (insert c S) (fst (coerce_col P c acc))"
    unfolding acc by (auto intro!: texts_in_apply simp: is_Text_coercions)
  from coerce_col_table [of P c t lg]
  show "map fst (fst (coerce_col P c acc)) = map fst (fst acc)"
    unfolding acc by (auto simp: apply_col_names)
qed

lemma coerce_fold:
  assumes "texts_in S (fst acc)"
  shows "texts_in (S \<union> set cols) (fst (fold (coerce_col P) cols acc))"
    and "map fst (fst (fold (coerce_col P) cols acc)) = map fst (fst acc)"
  using assms
proof (induction cols arbitrary: S acc)
  case Nil
  { case 1 then show ?case by simp }
  { case 2 show ?case by simp }
next
  case (Cons c cols)
  { case 1
    from Cons(1) [OF coerce_col_step(1) [OF 1, of c P]] show ?case by simp }
  { case 2
    from Cons(2) [OF coerce_col_step(1) [OF 2, of c P]] coerce_col_step(2) [OF 2, of P c]
    show ?case by simp }
qed

lemma coerced_all_text:
  "all_text (fst (fold (coerce_col P) (map fst df) (df, lg)))"
proof -
  have "texts_in {} (fst (df, lg))" by (simp add: texts_in_def)
  from coerce_fold [OF this, where cols = "map fst df" and P = P]
  have t: "texts_in (set (map fst df)) (fst (fold (coerce_col P) (map fst df) (df, lg)))"
    and n: "map fst (fst (fold (coerce_col P) (map fst df) (df, lg))) = map fst df"
    by simp_all
  have "fst col \<in> set (map fst df)"
    if "col \<in> set (fst (fold (coerce_col P) (map fst df) (df, lg)))" for col
    using that n by (metis image_eqI set_map)
  with t show ?thesis by (auto simp: texts_in_def all_text_def list_all_iff)
qed

lemma write_parquet_written:
  "written (final (write_parquet P df w)) = written w \<or>
   (\<exists>c. written (final (write_parquet P df w)) = written w @ [(df, c)])"
  by (auto simp: write_parquet_def save_def Let_def split: option.splits)

lemma convert_body_written:
  "written (final (convert_body P cs w)) = written w \<or>
   (\<exists>df lg c. load_large_csv_to_pd P cs = Inr df \<and>
      written (final (convert_body P cs w)) =
        written w @ [(fst (fold (coerce_col P) (map fst df)
           (df, convert_log w @ [(INFO, ConvertingToParquet), (INFO, LoadedRows (nrows df)), (DEBUG, ConvertingColumns)])), c)])"
proof (cases "load_large_csv_to_pd P cs")
  case (Inl e)
  then show ?thesis by (simp add: convert_body_def)
next
  case (Inr df)
  let ?acc = "fold (coerce_col P) (map fst df)
    (df, convert_log w @ [(INFO, ConvertingToParquet), (INFO, LoadedRows (nrows df)), (DEBUG, ConvertingColumns)])"
  obtain df' lg where acc: "?acc = (df', lg)" by (cases ?acc)
  let ?w = "w\<lparr>convert_log := lg\<rparr>"
  have b: "convert_body P cs w = write_parquet P df' ?w"
    using Inr acc by (simp add: convert_body_def)
  from write_parquet_written [of P df' ?w] show ?thesis
    unfolding b using Inr acc by auto
qed

lemma convert_written:
  "written (final (convert P cs w)) = written w \<or>
   (\<exists>df lg c. load_large_csv_to_pd P cs = Inr df \<and>
      written (final (convert P cs w)) = written w @ [(fst (fold (coerce_col P) (map fst df) (df, lg)), c)])"
proof (cases "interim_dir w = NotADirectory \<or> raw_data_dir w = NotADirectory")
  case True
  then show ?thesis
    by (cases "interim_dir w"; cases "raw_data_dir w") (simp_all add: convert_def)
next
  case False
  then have m: "mkdir (interim_dir w) = Inr Directory" "mkdir (raw_data_dir w) = Inr Directory"
    by (cases "interim_dir w"; cases "raw_data_dir w"; simp)+
  have "written (final (convert P cs w)) = written (final (convert_body P cs (ready w)))"
    by (cases "convert_body P cs (ready w)") (simp_all add: convert_def m ready_def)
  with convert_body_written [of P cs "ready w"] show ?thesis
    by (auto simp: ready_def)
qed

lemma fold_apply_col:
  "distinct cols \<Longrightarrow>
   fold (apply_col f) cols t =
     map (\<lambda>col. if fst col \<in> set cols then (fst col, map f (snd col)) else col) t"
proof (induction cols arbitrary: t)
  case Nil
  show ?case by simp
next
  case (Cons c cols)
  then have d: "distinct cols" "c \<notin> set cols" by simp_all
  show ?case
    unfolding fold_Cons comp_def Cons.IH [OF d(1)]
    using d(2) by (auto simp: apply_col_def split: prod.splits)
qed

lemma fill_chunk_eq:
  assumes "distinct (map fst chunk)"
  shows "fill_chunk chunk = map (\<lambda>col. (fst col, map fill (snd col))) chunk"
  unfolding fill_chunk_def fold_apply_col [OF assms] by (rule map_cong) auto

lemma set_first_seen: "set (first_seen xs) = set xs"
  by (induction xs) auto

lemma first_seen_distinct: "distinct xs \<Longrightarrow> first_seen xs = xs"
proof (induction xs)
  case Nil show ?case by simp
next
  case (Cons x xs)
  then have "filter (\<lambda>y. y \<noteq> x) xs = xs" by (simp add: filter_id_conv) auto
  with Cons show ?case by simp
qed

lemma first_seen_append:
  "first_seen (xs @ ys) = first_seen xs @ filter (\<lambda>y. y \<notin> set xs) (first_seen ys)"
proof (induction xs)
  case Nil show ?case by simp
next
  case (Cons x xs)
  have "filter (\<lambda>y. y \<noteq> x) (filter (\<lambda>y. y \<notin> set xs) (first_seen ys)) =
        filter (\<lambda>y. y \<notin> set (x # xs)) (first_seen ys)"
    by (auto intro: filter_cong)
  with Cons show ?case by simp
qed

lemma first_seen_chunks:
  assumes "chunks \<noteq> []" "list_all (\<lambda>chunk. map fst chunk = names) chunks" "distinct names"
  shows "first_seen (concat (map (map fst) chunks)) = names"
proof -
  from assms(1) obtain ch rest where c: "chunks = ch # rest" by (cases chunks) auto
  with assms(2) have h: "map fst ch = names" "list_all (\<lambda>chunk. map fst chunk = names) rest"
    by simp_all
  from h(2) have "set (concat (map (map fst) rest)) \<subseteq> set names"
    by (auto simp: list_all_iff)
  then have "filter (\<lambda>y. y \<notin> set names) (first_seen (concat (map (map fst) rest))) = []"
    by (auto simp: filter_empty_conv set_first_seen)
  then show ?thesis
    by (simp add: c h(1) first_seen_append first_seen_distinct [OF assms(3)])
qed

lemma nrows_map: "nrows (map (\<lambda>col. (fst col, map f (snd col))) t) = nrows t"
  by (cases t) (auto simp: nrows_def)

lemma column_of_map:
  "column_of (map (\<lambda>col. (fst col, map f (snd col))) t) c =
     (case map_of t c of Some vs \<Rightarrow> map f vs | None \<Rightarrow> replicate (nrows t) NaN)"
proof -
  have "map_of (map (\<lambda>col. (fst col, map f (snd col))) t) c = map_option (map f) (map_of t c)"
    by (induction t) auto
  then show ?thesis by (simp add: column_of_def nrows_map split: option.splits)
qed

lemma column_of_filled:
  assumes "c \<in> set (map fst chunk)" "distinct (map fst chunk)"
  shows "column_of (fill_chunk chunk) c = map fill (column_of chunk c)"
proof -
  from assms(1) obtain vs where "map_of chunk c = Some vs"
    by (metis map_of_eq_None_iff not_Some_eq set_map)
  then show ?thesis
    unfolding fill_chunk_eq [OF assms(2)] column_of_map by (simp add: column_of_def)
qed

lemma fill_text_of: "fill x = Text (text_of x)"
  by (cases x) (simp_all add: fill_def)

lemma load_as_text:
  assumes "read_csv P cs = Inr chunks" "chunks \<noteq> []"
    "list_all (\<lambda>chunk. map fst chunk = names) chunks" "distinct names"
  shows "load_large_csv_to_pd P cs = Inr (as_text names chunks)"
proof -
  have n: "map fst (fill_chunk ch) = names" "distinct (map fst ch)" if "ch \<in> set chunks" for ch
    using that assms(3,4) by (auto simp: list_all_iff fill_chunk_eq comp_def)
  have "list_all (\<lambda>chunk. map fst chunk = names) (map fill_chunk chunks)"
    using n by (simp add: list_all_iff)
  with assms(2,4) have cols: "first_seen (concat (map (map fst) (map fill_chunk chunks))) = names"
    by (intro first_seen_chunks) simp_all
  have "column_of (fill_chunk ch) c = map (\<lambda>x. Text (text_of x)) (column_of ch c)"
    if "ch \<in> set chunks" "c \<in> set names" for ch c
  proof -
    from that assms(3) have "c \<in> set (map fst ch)" by (auto simp: list_all_iff)
    from column_of_filled [OF this n(2) [OF that(1)]] show ?thesis
      by (simp add: fill_text_of [abs_def])
  qed
  then have "map (\<lambda>c. (c, concat (map (\<lambda>t. column_of t c) (map fill_chunk chunks)))) names =
        as_text names chunks"
    unfolding as_text_def by (intro map_cong refl) (simp add: comp_def cong: map_cong)
  then show ?thesis
    using assms(1,2) cols by (simp add: load_large_csv_to_pd_def concat_tables_def)
qed

lemma all_text_as_text: "all_text (as_text names chunks)"
  by (simp add: all_text_def as_text_def list_all_iff)

lemma apply_col_text:
  assumes "all_text t" "\<And>s. f (Text s) = Text s"
  shows "apply_col f c t = t"
proof -
  have "map f vs = vs" if "(n, vs) \<in> set t" for n vs
  proof -
    from that assms(1) have "list_all is_Text vs" by (auto simp: all_text_def list_all_iff)
    have "f x = x" if "x \<in> set vs" for x
    proof -
      from that \<open>list_all is_Text vs\<close> have "is_Text x" by (simp add: list_all_iff)
      then obtain s where "x = Text s" by (cases x) simp_all
      with assms(2) show ?thesis by simp
    qed
    then show ?thesis by (simp add: map_idI)
  qed
  then show ?thesis
    unfolding apply_col_def by (intro map_idI) auto
qed

lemma coerce_col_text: "all_text t \<Longrightarrow> fst (coerce_col P c (t, lg)) = t"
  by (auto simp: coerce_col_def apply_col_text as_str_def str_unless_none_def split: option.splits)

lemma coerce_fold_text: "all_text (fst acc) \<Longrightarrow> fst (fold (coerce_col P) cols acc) = fst acc"
proof (induction cols arbitrary: acc)
  case Nil show ?case by simp
next
  case (Cons c cols)
  obtain t lg where acc: "acc = (t, lg)" by (cases acc)
  with Cons.prems have s: "fst (coerce_col P c acc) = fst acc" by (simp add: coerce_col_text)
  with Cons.prems have "all_text (fst (coerce_col P c acc))" by simp
  from Cons.IH [OF this] s show ?case by simp
qed

lemma parse_chunk_names: "map fst (parse_chunk chunk) = map fst chunk"
  by (induction chunk) (auto simp: parse_chunk_def)

lemma column_of_parsed:
  assumes "c \<in> set (map fst chunk)"
  shows "column_of (parse_chunk chunk) c = map parse_field (fields_of chunk c)"
proof -
  from assms obtain fs where m: "map_of chunk c = Some fs"
    by (metis map_of_eq_None_iff not_Some_eq set_map)
  have "map_of (parse_chunk chunk) c = map_option (map parse_field) (map_of chunk c)"
    by (induction chunk) (auto simp: parse_chunk_def)
  with m show ?thesis by (simp add: column_of_def fields_of_def)
qed

lemma text_of_parsed: "text_of (parse_field f) = field_text f"
  by (simp add: parse_field_def field_text_def)

lemma as_text_parsed:
  assumes "list_all (\<lambda>chunk. map fst chunk = names) chunks"
  shows "as_text names (map parse_chunk chunks) = as_field_text names chunks"
proof -
  have "map (\<lambda>x. Text (text_of x)) (column_of (parse_chunk chunk) c) =
        map (\<lambda>f. Text (field_text f)) (fields_of chunk c)"
    if "chunk \<in> set chunks" "c \<in> set names" for chunk c
  proof -
    from that assms have "c \<in> set (map fst chunk)" by (auto simp: list_all_iff)
    from column_of_parsed [OF this] show ?thesis by (simp add: text_of_parsed comp_def)
  qed
  then show ?thesis
    unfolding as_text_def as_field_text_def
    by (intro map_cong refl) (simp add: comp_def cong: map_cong)
qed

text \<open>
  Claim C6, as amended. Every frame a run of \<^verbatim>\<open>convert\<close> writes to parquet, by
  the first write or by the fallback, has text type: each value of each column is
  a str. When the chunks read share their distinct column names, as the chunks of
  one \<^verbatim>\<open>read_csv\<close> do, the frame written has these columns and each holds, in
  order, the texts of the fields of the interim table: the field itself, and the
  empty string for an empty field and for a field that is one of the markers
  pandas reads as a missing value, such as \<^verbatim>\<open>NA\<close>, \<^verbatim>\<open>null\<close> or \<^verbatim>\<open>nan\<close>.
\<close>

theorem convert_writes_text:
  "list_all (\<lambda>x. all_text (fst x)) (new_written w (final (convert P chunk_size w)))
   \<and> (\<forall>chunks names.
        csv_fields P chunk_size = Inr chunks \<and> list_all (\<lambda>chunk. map fst chunk = names) chunks \<and>
        distinct names \<longrightarrow>
        list_all (\<lambda>x. fst x = as_field_text names chunks)
          (new_written w (final (convert P chunk_size w))))"
proof -
  let ?new = "new_written w (final (convert P chunk_size w))"
  from convert_written [of P chunk_size w]
  consider "?new = []"
    | df lg c where "load_large_csv_to_pd P chunk_size = Inr df"
        "?new = [(fst (fold (coerce_col P) (map fst df) (df, lg)), c)]"
    by (auto simp: new_written_def)
  then show ?thesis
  proof cases
    case 1
    then show ?thesis by simp
  next
    case 2
    have "fst (fold (coerce_col P) (map fst df) (df, lg)) = as_field_text names chunks"
      if f: "csv_fields P chunk_size = Inr chunks"
        and n: "list_all (\<lambda>chunk. map fst chunk = names) chunks"
        and d: "distinct names" for chunks names
    proof -
      from f have r: "read_csv P chunk_size = Inr (map parse_chunk chunks)"
        by (simp add: read_csv_def)
      from n have n': "list_all (\<lambda>chunk. map fst chunk = names) (map parse_chunk chunks)"
        by (simp add: list_all_iff parse_chunk_names)
      from 2(1) r have "map parse_chunk chunks \<noteq> []"
        by (auto simp: load_large_csv_to_pd_def concat_tables_def)
      from load_as_text [OF r this n' d] 2(1)
      have "df = as_text names (map parse_chunk chunks)" by simp
      then have "fst (fold (coerce_col P) (map fst df) (df, lg)) = as_text names (map parse_chunk chunks)"
        by (simp add: coerce_fold_text all_text_as_text)
      then show ?thesis by (simp only: as_text_parsed [OF n])
    qed
    then show ?thesis
      unfolding 2(2) by (simp add: coerced_all_text)
  qed
qed

text \<open>
  Claim C6 as stated fails on the marked table: the titles \<^verbatim>\<open>NA\<close> and
  \<^verbatim>\<open>null\<close> are not missing or empty in the interim table, and the output holds
  the empty string for them.
\<close>

theorem convert_blanks_marker_texts:
  "csv_fields marked_csv 1000 =
     Inr [[(''id'', [''1'', ''2'', ''3'']), (''title'', [''NA'', ''null'', ''abc''])]]
   \<and> raised (convert marked_csv 1000 empty_store) = None
   \<and> new_written empty_store (final (convert marked_csv 1000 empty_store)) =
       [([(''id'', [Text ''1'', Text ''2'', Text ''3'']),
          (''title'', [Text '''', Text '''', Text ''abc''])], Snappy)]"
  by code_simp

text \<open>
  Claim C7, as amended. \<^verbatim>\<open>convert\<close> raises exactly when one of its two
  \<^verbatim>\<open>mkdir\<close> calls does, which stand before the \<^verbatim>\<open>try\<close>. Once both
  directories are made, whatever the loading, the coercion, the write or the
  fallback write raises is logged as a failed conversion and the command returns.
\<close>

theorem convert_catches:
  "raised (convert P chunk_size w) =
     (if interim_dir w = NotADirectory \<or> raw_data_dir w = NotADirectory then Some FileExistsError
      else None)
   \<and> (interim_dir w \<noteq> NotADirectory \<and> raw_data_dir w \<noteq> NotADirectory \<longrightarrow>
        (\<forall>e w'. convert_body P chunk_size (ready w) = Raised e w' \<longrightarrow>
           convert P chunk_size w =
             Returned (w'\<lparr>convert_log := convert_log w' @ [(ERROR, ConversionFailed e)]\<rparr>)))"
proof (cases "interim_dir w = NotADirectory \<or> raw_data_dir w = NotADirectory")
  case True
  then show ?thesis
    by (cases "interim_dir w"; cases "raw_data_dir w") (simp_all add: convert_def)
next
  case False
  then have m: "mkdir (interim_dir w) = Inr Directory" "mkdir (raw_data_dir w) = Inr Directory"
    by (cases "interim_dir w"; cases "raw_data_dir w"; simp)+
  show ?thesis
    using False
    by (cases "convert_body P chunk_size (ready w)") (simp_all add: convert_def m ready_def)
qed

text \<open>
  Claim C7, as amended, where both writes fail: the \<^verbatim>\<open>TypeError\<close> of the fallback
  is logged and nothing is raised.
\<close>

theorem convert_catches_witness:
  "interim_dir empty_store \<noteq> NotADirectory \<and> raw_data_dir empty_store \<noteq> NotADirectory
   \<and> raised (convert no_parquet 2 empty_store) = None
   \<and> last (convert_log (final (convert no_parquet 2 empty_store))) = (ERROR, ConversionFailed TypeError)"
proof -
  have d: "interim_dir empty_store \<noteq> NotADirectory" "raw_data_dir empty_store \<noteq> NotADirectory"
    by (simp_all add: empty_store_def)
  have "raised (convert_body no_parquet 2 (ready empty_store)) = Some TypeError"
    by code_simp
  then obtain w' where "convert_body no_parquet 2 (ready empty_store) = Raised TypeError w'"
    by (cases "convert_body no_parquet 2 (ready empty_store)") simp_all
  with convert_catches [of no_parquet 2 empty_store] d show ?thesis by simp
qed

text \<open>
  Claim C7 as stated fails: with a file at the path of the interim directory the
  command raises \<^verbatim>\<open>FileExistsError\<close>.
\<close>

theorem convert_propagates_mkdir_error:
  "interim_dir blocked_store = NotADirectory
   \<and> raised (convert mixed_csv 1000 blocked_store) = Some FileExistsError"
  by code_simp

text \<open>
  Claim C6, as amended, on the mixed table: the column with \<^verbatim>\<open>3\<close>, an empty
  field and \<^verbatim>\<open>abc\<close> is written as these three texts.
\<close>

theorem convert_writes_text_witness:
  "csv_fields mixed_csv 2 =
     Inr [[(''id'', [''3'', '''']), (''title'', [''abc'', ''x''])],
          [(''id'', [''abc'']), (''title'', [''''])]]
   \<and> new_written empty_store (final (convert mixed_csv 2 empty_store)) =
       [([(''id'', [Text ''3'', Text '''', Text ''abc'']),
          (''title'', [Text ''abc'', Text ''x'', Text ''''])], Snappy)]"
proof -
  let ?chunks = "[[(''id'', [''3'', '''']), (''title'', [''abc'', ''x''])],
                  [(''id'', [''abc'']), (''title'', [''''])]]"
  have r: "csv_fields mixed_csv 2 = Inr ?chunks" by (simp add: mixed_csv_def)
  have n: "list_all (\<lambda>chunk. map fst chunk = [''id'', ''title'']) ?chunks" "distinct [''id'', ''title'']"
    by simp_all
  have l: "length (new_written empty_store (final (convert mixed_csv 2 empty_store))) = 1"
    "map snd (new_written empty_store (final (convert mixed_csv 2 empty_store))) = [Snappy]"
    by code_simp+
  have a: "as_field_text [''id'', ''title''] ?chunks =
     [(''id'', [Text ''3'', Text '''', Text ''abc'']), (''title'', [Text ''abc'', Text ''x'', Text ''''])]"
    by code_simp
  from convert_writes_text [of empty_store mixed_csv 2] r n
  have "list_all (\<lambda>x. fst x = as_field_text [''id'', ''title''] ?chunks)
          (new_written empty_store (final (convert mixed_csv 2 empty_store)))"
    by blast
  with l a r show ?thesis
    by (cases "new_written empty_store (final (convert mixed_csv 2 empty_store))") (auto simp: a)
qed
end
